theory Spec2Isabelle
  imports Main
begin

section \<open>The line buffer and the tokenizer (xvsh.c, lines 7-64)\<close>

text \<open>
  The shell keeps one input line in a character array and hands out tokens as pointers
  into it. A pointer is modelled as an index into the buffer, \<open>NULL_PTR\<close> as \<open>None\<close>.
  A read beyond the end of an array and a store beyond the capacity of an array are
  undefined in C; the model stops with an error value there. The \<open>int\<close> counters and
  descriptors of the code never leave the range from 0 to 256 and are natural numbers
  here; what \<open>fork\<close> and \<open>wait\<close> return is an integer.
\<close>

definition NUL :: char where
  "NUL = CHR 0x00"

abbreviation MAXLINE :: nat where
  "MAXLINE \<equiv> 256"

abbreviation MAXTOKENS :: nat where
  "MAXTOKENS \<equiv> 16"

type_synonym ptr = "nat option"

datatype error = Read_past_end | Store_out_of_bounds string nat

text \<open>The buffer together with \<open>static char *last\<close> of \<open>strtok_custom\<close>.\<close>

type_synonym tstate = "char list \<times> ptr"

text \<open>The C string that starts at index \<open>p\<close>: the bytes up to the first NUL.\<close>

definition cstr :: "char list \<Rightarrow> nat \<Rightarrow> string" where
  "cstr b p = takeWhile (\<lambda>c. c \<noteq> NUL) (drop p b)"

text \<open>
  Lines 34-39, the loop at label \<open>cont\<close>: read \<open>c = *s++\<close> and start over while \<open>c\<close> is
  one of the delimiters. The result is \<open>c\<close> and the incremented \<open>s\<close>. The delimiter
  string is given without its terminating NUL, which this loop does not compare.
\<close>

function skip_leading :: "char list \<Rightarrow> string \<Rightarrow> nat \<Rightarrow> error + (char \<times> nat)" where
  "skip_leading b delim s =
     (if length b \<le> s then Inl Read_past_end
      else if b ! s \<in> set delim then skip_leading b delim (Suc s)
      else Inr (b ! s, Suc s))"
  by pat_completeness auto
termination
  by (relation "measure (\<lambda>(b, delim, s). length b - s)") auto

text \<open>
  Lines 49-62, the scan of the token: the do-while loop compares \<open>c\<close> with every
  delimiter and with the delimiter string's own terminating NUL. A delimiter is
  overwritten with NUL and \<open>last\<close> is set behind it; at the end of the string \<open>last\<close>
  becomes \<open>NULL_PTR\<close>.
\<close>

function scan_token :: "char list \<Rightarrow> string \<Rightarrow> nat \<Rightarrow> error + tstate" where
  "scan_token b delim s =
     (if length b \<le> s then Inl Read_past_end
      else if b ! s \<in> set delim \<or> b ! s = NUL then
        (if b ! s = NUL then Inr (b, None) else Inr (b[s := NUL], Some (Suc s)))
      else scan_token b delim (Suc s))"
  by pat_completeness auto
termination
  by (relation "measure (\<lambda>(b, delim, s). length b - s)") auto

definition strtok_custom :: "ptr \<Rightarrow> string \<Rightarrow> tstate \<Rightarrow> error + (ptr \<times> tstate)" where
  "strtok_custom s delim st =
     (case (case s of None \<Rightarrow> snd st | Some p \<Rightarrow> Some p) of
        None \<Rightarrow> Inr (None, st)
      | Some p \<Rightarrow>
          (case skip_leading (fst st) delim p of
             Inl e \<Rightarrow> Inl e
           | Inr (c, s1) \<Rightarrow>
               if c = NUL then Inr (None, (fst st, None))
               else (case scan_token (fst st) delim s1 of
                       Inl e \<Rightarrow> Inl e
                     | Inr st' \<Rightarrow> Inr (Some (s1 - 1), st'))))"

text \<open>
  Arrays of \<open>char *\<close> are lists holding the slots written so far. \<open>rd\<close> reads a slot,
  \<open>store\<close> writes slot \<open>i\<close> of an array of \<open>cap\<close> slots.
\<close>

definition rd :: "ptr list \<Rightarrow> nat \<Rightarrow> error + ptr" where
  "rd a i = (if i < length a then Inr (a ! i) else Inl Read_past_end)"

definition store :: "string \<Rightarrow> nat \<Rightarrow> ptr list \<Rightarrow> nat \<Rightarrow> ptr \<Rightarrow> error + ptr list" where
  "store name cap a i v =
     (if cap \<le> i then Inl (Store_out_of_bounds name i)
      else if i < length a then Inr (a[i := v])
      else Inr (a @ [v]))"

text \<open>
  The strings of an argument vector, up to its \<open>NULL_PTR\<close> sentinel, as \<open>exec\<close> and the
  scans \<open>for (i = 0; tok[i] != NULL_PTR; i++)\<close> read them.
\<close>

fun argv :: "char list \<Rightarrow> ptr list \<Rightarrow> string list" where
  "argv b [] = []"
| "argv b (None # t) = []"
| "argv b (Some p # t) = cstr b p # argv b t"

section \<open>The system calls the shell uses\<close>

text \<open>
  \<open>user.h\<close> and \<open>fcntl.h\<close> are not part of the shell's source file. The system calls
  are modelled as the kernel interface defines them: every descriptor-returning call
  takes the lowest unused descriptor; whether \<open>malloc\<close>, \<open>fork\<close>, \<open>pipe\<close>, \<open>open\<close> and
  \<open>exec\<close> succeed is decided by the environment, an arbitrary function \<open>answers\<close> that is
  asked once per such call (a negative answer is a failure; for \<open>fork\<close> the answer is
  the return value itself, so \<open>0\<close> continues in the child). The descriptor table is not
  bounded: running out of descriptors is one of the failures the environment stands for.
\<close>

datatype fobj = Console | Pipe_read nat | Pipe_write nat | File_out string

text \<open>
  Modelled from the spec: \<open>fcntl.h\<close> is missing; these are the mode flags the spec
  names for the file open primitive (create-if-missing, write-only, truncate).
\<close>

datatype oflag = O_CREATE | O_WRONLY | O_TRUNC

datatype parg = PInt int | PStr "string option"

datatype event =
    Printf nat string "parg list"
  | Malloc nat int
  | Fork int
  | Exec "string option" "string list" int
  | Wait int
  | Pipe "(nat \<times> nat) option"
  | Open string "oflag list" "nat option"
  | Dup nat "nat option"
  | Close nat
  | Read_line nat
  | Exit

record world =
  ofile :: "fobj option list"
  children :: "nat list"
  npipes :: nat
  answers :: "nat \<Rightarrow> int"
  tick :: nat
  trace :: "event list"

text \<open>How a process stops running the shell's code, or that the function returned.\<close>

datatype outcome = Return int | Exited | Replaced

definition emit :: "event \<Rightarrow> world \<Rightarrow> world" where
  "emit e w = w\<lparr>trace := trace w @ [e]\<rparr>"

definition ask :: "world \<Rightarrow> int \<times> world" where
  "ask w = (answers w (tick w), w\<lparr>tick := Suc (tick w)\<rparr>)"

definition printf :: "nat \<Rightarrow> string \<Rightarrow> parg list \<Rightarrow> world \<Rightarrow> world" where
  "printf fd fmt args w = emit (Printf fd fmt args) w"

definition sys_exit :: "world \<Rightarrow> world" where
  "sys_exit w = emit Exit w"

text \<open>
  The descriptor table of the process: \<open>fdalloc\<close> is the lowest unused descriptor,
  \<open>install\<close> puts an open file there.
\<close>

fun fdalloc :: "fobj option list \<Rightarrow> nat" where
  "fdalloc [] = 0"
| "fdalloc (None # t) = 0"
| "fdalloc (Some f # t) = Suc (fdalloc t)"

definition install :: "fobj option list \<Rightarrow> nat \<Rightarrow> fobj \<Rightarrow> fobj option list" where
  "install t n f = (if n < length t then t[n := Some f] else t @ [Some f])"

text \<open>\<open>malloc\<close> of an array of \<open>n\<close> pointers; the result says whether it succeeded.\<close>

definition malloc :: "nat \<Rightarrow> world \<Rightarrow> bool \<times> world" where
  "malloc n w = (case ask w of (r, w1) \<Rightarrow> (0 \<le> r, emit (Malloc n r) w1))"

text \<open>
  Modelled from the spec: process creation "duplicates the calling process; returns a
  discriminator telling each side whether it is parent or child, and the child's
  identifier to the parent". The child starts with no children of its own and with a
  copy of the descriptor table.
\<close>

definition sys_fork :: "world \<Rightarrow> int \<times> world" where
  "sys_fork w =
     (case ask w of (r, w1) \<Rightarrow>
        (r, emit (Fork r)
              (w1\<lparr>children := (if r < 0 then children w1
                                else if r = 0 then []
                                else children w1 @ [nat r])\<rparr>)))"

text \<open>
  Modelled from the spec: program replacement "replaces the calling process's program
  image; on failure, control returns to the caller". The result says whether the image
  was replaced.
\<close>

definition sys_exec :: "string option \<Rightarrow> string list \<Rightarrow> world \<Rightarrow> bool \<times> world" where
  "sys_exec path args w =
     (case ask w of (r, w1) \<Rightarrow> (0 \<le> r, emit (Exec path args r) w1))"

text \<open>
  Modelled from the spec: the wait primitive "blocks until any child of the calling
  process terminates, returning its identifier, or a failure when no children remain".
  Every child is taken to terminate eventually; which one is reaped first is the
  scheduler's choice, and the shell only tests the sign of the result.
\<close>

definition sys_wait :: "world \<Rightarrow> int \<times> world" where
  "sys_wait w =
     (case children w of
        [] \<Rightarrow> (- 1, emit (Wait (- 1)) w)
      | p # ps \<Rightarrow> (int p, emit (Wait (int p)) (w\<lparr>children := ps\<rparr>)))"

text \<open>Modelled from the spec: the pipe primitive "returns a connected read/write descriptor pair".\<close>

definition sys_pipe :: "world \<Rightarrow> (nat \<times> nat) option \<times> world" where
  "sys_pipe w =
     (case ask w of (r, w1) \<Rightarrow>
        if r < 0 then (None, emit (Pipe None) w1)
        else
          let k = npipes w1;
              fd0 = fdalloc (ofile w1);
              t0 = install (ofile w1) fd0 (Pipe_read k);
              fd1 = fdalloc t0;
              t1 = install t0 fd1 (Pipe_write k)
          in (Some (fd0, fd1),
              emit (Pipe (Some (fd0, fd1))) (w1\<lparr>ofile := t1, npipes := Suc k\<rparr>)))"

text \<open>
  Modelled from the spec: the file open primitive, "given a path and mode flags,
  returns a descriptor or a failure".
\<close>

definition sys_open :: "string \<Rightarrow> oflag list \<Rightarrow> world \<Rightarrow> nat option \<times> world" where
  "sys_open path flags w =
     (case ask w of (r, w1) \<Rightarrow>
        if r < 0 then (None, emit (Open path flags None) w1)
        else
          let fd = fdalloc (ofile w1)
          in (Some fd,
              emit (Open path flags (Some fd))
                (w1\<lparr>ofile := install (ofile w1) fd (File_out path)\<rparr>)))"

text \<open>
  \<open>dup\<close> and \<open>close\<close> as the kernel interface defines them: \<open>dup\<close> makes the lowest
  unused descriptor a second name for the open file of \<open>fd\<close> and leaves \<open>fd\<close> open;
  \<open>close\<close> frees the descriptor. The shell ignores what they return.
\<close>

definition sys_dup :: "nat \<Rightarrow> world \<Rightarrow> world" where
  "sys_dup fd w =
     (if fd < length (ofile w) then
        (case ofile w ! fd of
           None \<Rightarrow> emit (Dup fd None) w
         | Some f \<Rightarrow>
             let n = fdalloc (ofile w)
             in emit (Dup fd (Some n)) (w\<lparr>ofile := install (ofile w) n f\<rparr>))
      else emit (Dup fd None) w)"

definition sys_close :: "nat \<Rightarrow> world \<Rightarrow> world" where
  "sys_close fd w =
     emit (Close fd)
       (if fd < length (ofile w) then w\<lparr>ofile := (ofile w)[fd := None]\<rparr> else w)"

section \<open>The executors (xvsh.c, lines 66-230)\<close>

text \<open>Lines 67-69.\<close>

definition exit_check :: "char list \<Rightarrow> ptr list \<Rightarrow> error + bool" where
  "exit_check b tok =
     (case rd tok 0 of
        Inl e \<Rightarrow> Inl e
      | Inr None \<Rightarrow> Inr False
      | Inr (Some p) \<Rightarrow> Inr (cstr b p = ''exit''))"

text \<open>Lines 72-78: wait until \<open>wait\<close> returns a negative value.\<close>

function wait_for_background_processes :: "world \<Rightarrow> world" where
  "wait_for_background_processes w =
     (case sys_wait w of (pid, w1) \<Rightarrow>
        if pid < 0 then w1 else wait_for_background_processes w1)"
  by pat_completeness auto
termination
  by (relation "measure (\<lambda>w. length (children w))")
    (auto simp: sys_wait_def emit_def split: list.splits)

text \<open>Lines 81-102.\<close>

definition process_normal :: "ptr list \<Rightarrow> bool \<Rightarrow> char list \<Rightarrow> world \<Rightarrow> error + (outcome \<times> world)" where
  "process_normal tok bg b w =
     (case sys_fork w of (pid, w1) \<Rightarrow>
        if pid < 0 then Inr (Return (- 1), printf 2 ''Fork failed\<newline>'' [] w1)
        else if pid = 0 then
          (case rd tok 0 of
             Inl e \<Rightarrow> Inl e
           | Inr t0 \<Rightarrow>
               (case sys_exec (map_option (cstr b) t0) (argv b tok) w1 of (ok, w2) \<Rightarrow>
                  if ok then Inr (Replaced, w2)
                  else Inr (Exited,
                         sys_exit (printf 2 ''Cannot run this command %s\<newline>''
                                     [PStr (map_option (cstr b) t0)] w2))))
        else if \<not> bg then Inr (Return 0, snd (sys_wait w1))
        else Inr (Return 0,
               printf 1 ''[pid %d] runs as a background process\<newline>'' [PInt pid] w1))"

text \<open>
  Lines 129-134 of \<open>execute_piped_commands\<close>: the stage's tokens are stored in
  \<open>args[MAXTOKENS]\<close> while \<open>j < MAXTOKENS - 1\<close>.
\<close>

function args_loop :: "nat \<Rightarrow> ptr list \<Rightarrow> ptr \<Rightarrow> tstate \<Rightarrow> error + (ptr list \<times> nat \<times> tstate)" where
  "args_loop j args tok st =
     (case tok of
        None \<Rightarrow> Inr (args, j, st)
      | Some p \<Rightarrow>
          if \<not> j < MAXTOKENS - 1 then Inr (args, j, st)
          else
            (case store ''args'' MAXTOKENS args j tok of
               Inl e \<Rightarrow> Inl e
             | Inr args' \<Rightarrow>
                 (case strtok_custom None '' '' st of
                    Inl e \<Rightarrow> Inl e
                  | Inr (tok', st') \<Rightarrow> args_loop (Suc j) args' tok' st')))"
  by pat_completeness auto
termination
  by (relation "measure (\<lambda>(j, args, tok, st). MAXTOKENS - 1 - j)") auto

text \<open>
  Lines 124-166, the loop over the stages. The result \<open>None\<close> means that the loop has
  run to its end; \<open>Some\<close> is an early return, or the end of the child's path.
\<close>

function pipe_loop ::
  "ptr list \<Rightarrow> nat \<Rightarrow> nat \<Rightarrow> nat \<Rightarrow> tstate \<Rightarrow> world \<Rightarrow> error + (outcome option \<times> tstate \<times> world)" where
  "pipe_loop commands num_commands i inp st w =
     (if \<not> i < num_commands then Inr (None, st, w)
      else
        (case rd commands i of
           Inl e \<Rightarrow> Inl e
         | Inr c \<Rightarrow>
        (case strtok_custom c '' '' st of
           Inl e \<Rightarrow> Inl e
         | Inr (tok, st1) \<Rightarrow>
        (case args_loop 0 [] tok st1 of
           Inl e \<Rightarrow> Inl e
         | Inr (args0, j, st2) \<Rightarrow>
        (case store ''args'' MAXTOKENS args0 j None of
           Inl e \<Rightarrow> Inl e
         | Inr args \<Rightarrow>
        (case sys_pipe w of
           (None, w1) \<Rightarrow> Inr (Some (Return (- 1)), st2, printf 2 ''Pipe failed\<newline>'' [] w1)
         | (Some (fd0, fd1), w1) \<Rightarrow>
        (case sys_fork w1 of (pid, w2) \<Rightarrow>
           if pid < 0 then Inr (Some (Return (- 1)), st2, printf 2 ''Fork failed\<newline>'' [] w2)
           else if pid = 0 then
             (let w3 = (if inp \<noteq> 0 then sys_close inp (sys_dup inp w2) else w2);
                  w4 = (if i < num_commands - 1
                        then sys_close fd1 (sys_close fd0 (sys_dup fd1 w3)) else w3)
              in case rd args 0 of
                   Inl e \<Rightarrow> Inl e
                 | Inr a0 \<Rightarrow>
                     (case sys_exec (map_option (cstr (fst st2)) a0) (argv (fst st2) args) w4 of
                        (ok, w5) \<Rightarrow>
                          if ok then Inr (Some Replaced, st2, w5)
                          else Inr (Some Exited, st2,
                                 sys_exit (printf 2 ''Cannot run this command %s\<newline>''
                                             [PStr (map_option (cstr (fst st2)) a0)] w5))))
           else
             (let w3 = (if inp \<noteq> 0 then sys_close inp w2 else w2);
                  w4 = sys_close fd1 w3
              in pipe_loop commands num_commands (Suc i) fd0 st2 w4))))))))"
  by pat_completeness auto
termination
  by (relation "measure (\<lambda>(commands, num_commands, i, inp, st, w). num_commands - i)") auto

text \<open>Lines 169-171: one \<open>wait\<close> per command.\<close>

fun wait_loop :: "nat \<Rightarrow> world \<Rightarrow> world" where
  "wait_loop 0 w = w"
| "wait_loop (Suc n) w = wait_loop n (snd (sys_wait w))"

text \<open>Lines 119-174.\<close>

definition execute_piped_commands ::
  "ptr list \<Rightarrow> nat \<Rightarrow> tstate \<Rightarrow> world \<Rightarrow> error + (outcome \<times> tstate \<times> world)" where
  "execute_piped_commands commands num_commands st w =
     (case pipe_loop commands num_commands 0 0 st w of
        Inl e \<Rightarrow> Inl e
      | Inr (Some oc, st', w') \<Rightarrow> Inr (oc, st', w')
      | Inr (None, st', w') \<Rightarrow> Inr (Return 0, st', wait_loop num_commands w'))"

text \<open>
  Lines 184-193 of \<open>execute_redirection\<close>: copy the tokens to \<open>cmd_args\<close> up to the
  first \<open>>\<close>. The result is the final \<open>i\<close>, \<open>cmd_args\<close>, \<open>outfile\<close> and the caller's
  array \<open>tok\<close> after the store of line 187.
\<close>

function red_scan ::
  "char list \<Rightarrow> ptr list \<Rightarrow> nat \<Rightarrow> ptr list \<Rightarrow> error + (nat \<times> ptr list \<times> ptr \<times> ptr list)" where
  "red_scan b tok i cmd_args =
     (case rd tok i of
        Inl e \<Rightarrow> Inl e
      | Inr None \<Rightarrow> Inr (i, cmd_args, None, tok)
      | Inr (Some p) \<Rightarrow>
          if \<not> i < MAXTOKENS - 1 then Inr (i, cmd_args, None, tok)
          else if cstr b p = ''>'' then
            (case rd tok (i + 1) of
               Inl e \<Rightarrow> Inl e
             | Inr outfile \<Rightarrow> Inr (i, cmd_args, outfile, tok[i := None]))
          else
            (case store ''cmd_args'' MAXTOKENS cmd_args i (Some p) of
               Inl e \<Rightarrow> Inl e
             | Inr cmd_args' \<Rightarrow> red_scan b tok (Suc i) cmd_args'))"
  by pat_completeness auto
termination
  by (relation "measure (\<lambda>(b, tok, i, cmd_args). MAXTOKENS - 1 - i)") auto

text \<open>
  Lines 177-230. The flags of line 196 are \<open>O_CREATE | O_WRONLY\<close>. When \<open>outfile\<close> is
  \<open>NULL_PTR\<close> the variable \<open>fd\<close> stays uninitialised and is never read; the model puts
  \<open>0\<close> there.
\<close>

definition execute_redirection ::
  "ptr list \<Rightarrow> bool \<Rightarrow> char list \<Rightarrow> world \<Rightarrow> error + (outcome \<times> world)" where
  "execute_redirection tok bg b w =
     (case red_scan b tok 0 [] of
        Inl e \<Rightarrow> Inl e
      | Inr (i, cmd_args0, outfile, tok') \<Rightarrow>
     (case store ''cmd_args'' MAXTOKENS cmd_args0 i None of
        Inl e \<Rightarrow> Inl e
      | Inr cmd_args \<Rightarrow>
     (case (case outfile of
              None \<Rightarrow> (Some 0, w)
            | Some q \<Rightarrow> sys_open (cstr b q) [O_CREATE, O_WRONLY] w) of
        (None, w1) \<Rightarrow>
          Inr (Return (- 1),
               printf 2 ''Cannot open file %s\<newline>'' [PStr (map_option (cstr b) outfile)] w1)
      | (Some fd, w1) \<Rightarrow>
     (case sys_fork w1 of (pid, w2) \<Rightarrow>
        if pid < 0 then Inr (Return (- 1), printf 2 ''Fork failed\<newline>'' [] w2)
        else if pid = 0 then
          (let w3 = (if outfile \<noteq> None then sys_close fd (sys_dup fd w2) else w2)
           in case rd cmd_args 0 of
                Inl e \<Rightarrow> Inl e
              | Inr a0 \<Rightarrow>
                  (case sys_exec (map_option (cstr b) a0) (argv b cmd_args) w3 of (ok, w4) \<Rightarrow>
                     if ok then Inr (Replaced, w4)
                     else Inr (Exited,
                            sys_exit (printf 2 ''Cannot run this command %s\<newline>''
                                        [PStr (map_option (cstr b) a0)] w4))))
        else
          (let w3 = (if outfile \<noteq> None then sys_close fd w2 else w2)
           in if \<not> bg then Inr (Return 0, snd (sys_wait w3))
              else Inr (Return 0,
                     printf 1 ''[pid %d] runs as a background process\<newline>'' [PInt pid] w3))))))"

section \<open>One command line (xvsh.c, lines 233-316)\<close>

text \<open>
  Lines 255-262: the remaining tokens go to \<open>tok[i]\<close>, \<open>i \<ge> 1\<close>, until the tokenizer
  is done or a token is \<open>&\<close>. The array has \<open>cap\<close> slots.
\<close>

function tok_loop :: "nat \<Rightarrow> nat \<Rightarrow> ptr list \<Rightarrow> tstate \<Rightarrow> error + (ptr list \<times> bool \<times> tstate)" where
  "tok_loop cap i tok st =
     (case strtok_custom None '' '' st of
        Inl e \<Rightarrow> Inl e
      | Inr (t, st') \<Rightarrow>
          (case store ''tok'' cap tok i t of
             Inl e \<Rightarrow> Inl e
           | Inr tok' \<Rightarrow>
               (case t of
                  None \<Rightarrow> Inr (tok', False, st')
                | Some p \<Rightarrow>
                    if cstr (fst st') p = ''&'' then Inr (tok'[i := None], True, st')
                    else tok_loop cap (Suc i) tok' st')))"
  by pat_completeness auto
termination
  by (relation "measure (\<lambda>(cap, i, tok, st). cap - i)")
    (auto simp: store_def split: if_splits)

text \<open>Lines 110 and 287: \<open>while (*cmd == ' ') cmd++\<close>.\<close>

function trim :: "char list \<Rightarrow> nat \<Rightarrow> error + nat" where
  "trim b p =
     (if length b \<le> p then Inl Read_past_end
      else if b ! p = CHR '' '' then trim b (Suc p)
      else Inr p)"
  by pat_completeness auto
termination
  by (relation "measure (\<lambda>(b, p). length b - p)") auto

text \<open>Lines 285-290: the command strings go to \<open>commands[MAXTOKENS]\<close>.\<close>

function split_loop :: "nat \<Rightarrow> ptr list \<Rightarrow> ptr \<Rightarrow> tstate \<Rightarrow> error + (ptr list \<times> nat \<times> tstate)" where
  "split_loop num_commands commands cmd st =
     (case cmd of
        None \<Rightarrow> Inr (commands, num_commands, st)
      | Some p \<Rightarrow>
          if \<not> num_commands < MAXTOKENS then Inr (commands, num_commands, st)
          else
            (case trim (fst st) p of
               Inl e \<Rightarrow> Inl e
             | Inr p' \<Rightarrow>
            (case store ''commands'' MAXTOKENS commands num_commands (Some p') of
               Inl e \<Rightarrow> Inl e
             | Inr commands' \<Rightarrow>
            (case strtok_custom None ''|'' st of
               Inl e \<Rightarrow> Inl e
             | Inr (cmd', st') \<Rightarrow> split_loop (Suc num_commands) commands' cmd' st'))))"
  by pat_completeness auto
termination
  by (relation "measure (\<lambda>(num_commands, commands, cmd, st). MAXTOKENS - num_commands)") auto

text \<open>Lines 282-291: split the buffer at \<open>|\<close> and store the sentinel.\<close>

definition pipe_split :: "tstate \<Rightarrow> error + (ptr list \<times> nat \<times> tstate)" where
  "pipe_split st =
     (case strtok_custom (Some 0) ''|'' st of
        Inl e \<Rightarrow> Inl e
      | Inr (cmd, st1) \<Rightarrow>
     (case split_loop 0 [] cmd st1 of
        Inl e \<Rightarrow> Inl e
      | Inr (commands0, num_commands, st2) \<Rightarrow>
     (case store ''commands'' MAXTOKENS commands0 num_commands None of
        Inl e \<Rightarrow> Inl e
      | Inr commands \<Rightarrow> Inr (commands, num_commands, st2))))"

text \<open>
  Lines 238-262: count the blanks, allocate \<open>tok\<close> with \<open>num_tok + 1\<close> slots and fill
  it. The result \<open>None\<close> is the failure of \<open>malloc\<close>. The counting loop of line 240
  runs to the first NUL of the buffer.
\<close>

definition tokenize_line :: "tstate \<Rightarrow> world \<Rightarrow> error + ((ptr list \<times> bool \<times> tstate) option \<times> world)" where
  "tokenize_line st w =
     (if NUL \<notin> set (fst st) then Inl Read_past_end
      else
        let num_tok = length (filter (\<lambda>c. c = CHR '' '') (cstr (fst st) 0)) + 1
        in case malloc (num_tok + 1) w of
             (False, w1) \<Rightarrow> Inr (None, w1)
           | (True, w1) \<Rightarrow>
        (case strtok_custom (Some 0) '' '' st of
           Inl e \<Rightarrow> Inl e
         | Inr (t0, st1) \<Rightarrow>
        (case store ''tok'' (num_tok + 1) [] 0 t0 of
           Inl e \<Rightarrow> Inl e
         | Inr tok0 \<Rightarrow>
        (case tok_loop (num_tok + 1) 1 tok0 st1 of
           Inl e \<Rightarrow> Inl e
         | Inr r \<Rightarrow> Inr (Some r, w1)))))"

text \<open>
  Lines 264-291: which branch \<open>process_one_cmd\<close> takes after the tokens are stored,
  and the arguments of the executor it calls there.
\<close>

datatype shape =
    Malloc_failed
  | Builtin_exit
  | Pipeline "ptr list" nat
  | Redirected "ptr list" bool
  | Plain "ptr list" bool

definition parse_cmd :: "tstate \<Rightarrow> world \<Rightarrow> error + (shape \<times> tstate \<times> world)" where
  "parse_cmd st w =
     (case tokenize_line st w of
        Inl e \<Rightarrow> Inl e
      | Inr (None, w1) \<Rightarrow> Inr (Malloc_failed, st, w1)
      | Inr (Some (tok, bg, st1), w1) \<Rightarrow>
     (case exit_check (fst st1) tok of
        Inl e \<Rightarrow> Inl e
      | Inr True \<Rightarrow> Inr (Builtin_exit, st1, w1)
      | Inr False \<Rightarrow>
          if ''|'' \<in> set (argv (fst st1) tok) then
            (case pipe_split st1 of
               Inl e \<Rightarrow> Inl e
             | Inr (commands, num_commands, st2) \<Rightarrow>
                 Inr (Pipeline commands num_commands, st2, w1))
          else if ''>'' \<in> set (argv (fst st1) tok) then Inr (Redirected tok bg, st1, w1)
          else Inr (Plain tok bg, st1, w1)))"

text \<open>
  An executor's return value is dropped by \<open>process_one_cmd\<close>, which returns 0; a
  process that has become a child ends inside the executor.
\<close>

fun returned :: "outcome \<Rightarrow> outcome" where
  "returned (Return r) = Return 0"
| "returned oc = oc"

text \<open>Lines 233-316. \<open>free\<close> has no effect on the model.\<close>

definition process_one_cmd :: "tstate \<Rightarrow> world \<Rightarrow> error + (outcome \<times> tstate \<times> world)" where
  "process_one_cmd st w =
     (case parse_cmd st w of
        Inl e \<Rightarrow> Inl e
      | Inr (Malloc_failed, st1, w1) \<Rightarrow>
          Inr (Exited, st1, sys_exit (printf 1 ''malloc failed\<newline>'' [] w1))
      | Inr (Builtin_exit, st1, w1) \<Rightarrow>
          Inr (Exited, st1, sys_exit (wait_for_background_processes w1))
      | Inr (Pipeline commands num_commands, st1, w1) \<Rightarrow>
          (case execute_piped_commands commands num_commands st1 w1 of
             Inl e \<Rightarrow> Inl e
           | Inr (oc, st2, w2) \<Rightarrow> Inr (returned oc, st2, w2))
      | Inr (Redirected tok bg, st1, w1) \<Rightarrow>
          (case execute_redirection tok bg (fst st1) w1 of
             Inl e \<Rightarrow> Inl e
           | Inr (oc, w2) \<Rightarrow> Inr (returned oc, st1, w2))
      | Inr (Plain tok bg, st1, w1) \<Rightarrow>
          (case process_normal tok bg (fst st1) w1 of
             Inl e \<Rightarrow> Inl e
           | Inr (oc, w2) \<Rightarrow> Inr (returned oc, st1, w2)))"

section \<open>The read loop (xvsh.c, lines 318-340)\<close>

definition SH_PROMPT :: string where
  "SH_PROMPT = ''xvsh> ''"

text \<open>
  The input is the list of byte strings that the successive calls of \<open>read\<close> deliver,
  each cut to the size of the buffer; the end of the list, or an empty delivery, is the
  end of the input. \<open>buf\<close> is the array of \<open>MAXLINE\<close> bytes, \<open>l\<close> the tokenizer's \<open>last\<close>.
\<close>

fun main_loop :: "char list \<Rightarrow> ptr \<Rightarrow> string list \<Rightarrow> world \<Rightarrow> error + (outcome \<times> world)" where
  "main_loop buf l [] w = Inr (Exited, sys_exit (emit (Read_line 0) w))"
| "main_loop buf l (c # cs) w =
     (let n = min (length c) MAXLINE;
          w0 = emit (Read_line n) w
      in if n = 0 then Inr (Exited, sys_exit w0)
         else
           let buf1 = take n c @ drop n buf
           in if n = 1 then main_loop buf1 l cs (printf 1 SH_PROMPT [] w0)
              else
                (case process_one_cmd (buf1[n - 1 := NUL], l) w0 of
                   Inl e \<Rightarrow> Inl e
                 | Inr (Return r, st', w') \<Rightarrow>
                     main_loop (replicate MAXLINE NUL) (snd st') cs (printf 1 SH_PROMPT [] w')
                 | Inr (oc, st', w') \<Rightarrow> Inr (oc, w')))"

text \<open>
  \<open>main\<close>: the buffer starts with whatever the stack holds, the static \<open>last\<close> with
  \<open>NULL_PTR\<close>.
\<close>

definition main :: "char list \<Rightarrow> string list \<Rightarrow> world \<Rightarrow> error + (outcome \<times> world)" where
  "main buf0 input w = main_loop buf0 None input (printf 1 SH_PROMPT [] w)"

text \<open>
  A shell as \<open>init\<close> starts it: the console on descriptors 0, 1 and 2, no children, and
  the environment's answers \<open>f\<close>.
\<close>

definition boot :: "(nat \<Rightarrow> int) \<Rightarrow> world" where
  "boot f = \<lparr>ofile = [Some Console, Some Console, Some Console], children = [],
             npipes = 0, answers = f, tick = 0, trace = []\<rparr>"

text \<open>The buffer that holds the line \<open>s\<close> after the store of line 330.\<close>

definition line_buf :: "string \<Rightarrow> char list" where
  "line_buf s = s @ replicate (MAXLINE - length s) NUL"

section \<open>Notions of the specification\<close>

text \<open>
  The tokens of a string as the specification words them: the maximal non-empty runs
  of characters that are not delimiters, from left to right.
\<close>

function tokens :: "string \<Rightarrow> string \<Rightarrow> string list" where
  "tokens delim s =
     (case dropWhile (\<lambda>c. c \<in> set delim) s of
        [] \<Rightarrow> []
      | c # r \<Rightarrow>
          takeWhile (\<lambda>x. x \<notin> set delim) (c # r)
            # tokens delim (dropWhile (\<lambda>x. x \<notin> set delim) (c # r)))"
  by pat_completeness auto
termination
proof (relation "measure (\<lambda>(delim, s). length s)", goal_cases)
  case 1
  show ?case by simp
next
  case (2 delim s c r)
  have "c \<notin> set delim"
    using 2 by (metis dropWhile_eq_Cons_conv)
  then have "length (dropWhile (\<lambda>x. x \<notin> set delim) (c # r)) \<le> length r"
    by (simp add: length_dropWhile_le)
  moreover have "length (c # r) \<le> length s"
    using 2 by (metis length_dropWhile_le)
  ultimately show ?case by simp
qed

text \<open>
  What lines 252-262 keep of the tokens of a line: the first token as it is, then the
  tokens up to the first \<open>&\<close>; the flag says whether there was one.
\<close>

fun cut_background :: "string list \<Rightarrow> string list \<times> bool" where
  "cut_background [] = ([], False)"
| "cut_background (t # ts) = (t # takeWhile (\<lambda>x. x \<noteq> ''&'') ts, ''&'' \<in> set ts)"

text \<open>The pointer \<open>p\<close> into \<open>b\<close> is the start of the NUL-terminated string \<open>t\<close>.\<close>

definition holds :: "char list \<Rightarrow> nat \<Rightarrow> string \<Rightarrow> bool" where
  "holds b p t \<longleftrightarrow> NUL \<notin> set t \<and> take (Suc (length t)) (drop p b) = t @ [NUL]"

text \<open>
  The buffer has a NUL at index \<open>z\<close>, and the tokenizer's \<open>last\<close> does not point
  beyond it.
\<close>

definition wf_buf :: "nat \<Rightarrow> tstate \<Rightarrow> bool" where
  "wf_buf z st \<longleftrightarrow>
     z < length (fst st) \<and> fst st ! z = NUL \<and> (case snd st of None \<Rightarrow> True | Some q \<Rightarrow> q \<le> z)"

text \<open>A pointer that is \<open>NULL_PTR\<close> or points at most to index \<open>z\<close>.\<close>

definition ptr_le :: "nat \<Rightarrow> ptr \<Rightarrow> bool" where
  "ptr_le z p = (case p of None \<Rightarrow> True | Some q \<Rightarrow> q \<le> z)"

text \<open>Events of a trace: a pipe that was created, a child that was forked, a wait.\<close>

fun is_pipe :: "event \<Rightarrow> bool" where
  "is_pipe (Pipe (Some fds)) = True"
| "is_pipe e = False"

fun is_fork :: "event \<Rightarrow> bool" where
  "is_fork (Fork pid) = (0 < pid)"
| "is_fork e = False"

fun is_wait :: "event \<Rightarrow> bool" where
  "is_wait (Wait pid) = True"
| "is_wait e = False"


fun is_open :: "event \<Rightarrow> bool" where
  "is_open (Open path flags fd) = True"
| "is_open e = False"

section \<open>Facts about the tokenizer and the executors\<close>

text \<open>
  The defining equations of the loops are applied by hand in the proofs below.
\<close>

declare
  skip_leading.simps [simp del]
  scan_token.simps [simp del]
  tokens.simps [simp del]
  tok_loop.simps [simp del]
  args_loop.simps [simp del]
  pipe_loop.simps [simp del]
  red_scan.simps [simp del]
  wait_for_background_processes.simps [simp del]
  trim.simps [simp del]
  split_loop.simps [simp del]

subsection \<open>One call of the tokenizer\<close>

text \<open>
  What \<open>strtok_custom\<close> returns from a position \<open>s\<close> of the buffer, by the shape of the
  bytes from \<open>s\<close> on: only delimiters up to the NUL; a token that ends at the NUL; a
  token that ends at a delimiter.
\<close>

lemma drop_eq_ConsD:
  assumes "drop s b = x # xs"
  shows "s < length b" and "b ! s = x" and "drop (Suc s) b = xs"
proof -
  show len: "s < length b"
    using assms by (metis drop_all list.distinct(1) not_le)
  from Cons_nth_drop_Suc [OF len] assms show "b ! s = x" and "drop (Suc s) b = xs"
    by simp_all
qed

lemma skip_leading_run:
  assumes "drop s b = ds @ c # r" and "set ds \<subseteq> set delim" and "c \<notin> set delim"
  shows "skip_leading b delim s = Inr (c, Suc (s + length ds))"
  using assms
proof (induction ds arbitrary: s)
  case Nil
  then have "s < length b" "b ! s = c"
    using drop_eq_ConsD [of s b c r] by simp_all
  with Nil show ?case by (simp add: skip_leading.simps [of b delim s])
next
  case (Cons d ds)
  then have "s < length b" "b ! s = d" "drop (Suc s) b = ds @ c # r"
    using drop_eq_ConsD [of s b d "ds @ c # r"] by simp_all
  moreover have "skip_leading b delim (Suc s) = Inr (c, Suc (Suc s + length ds))"
    using Cons.IH [of "Suc s"] Cons.prems \<open>drop (Suc s) b = ds @ c # r\<close> by simp
  ultimately show ?case using Cons.prems by (simp add: skip_leading.simps [of b delim s])
qed

lemma scan_token_run:
  assumes "drop s b = w @ c # r" and "\<forall>x\<in>set w. x \<notin> set delim \<and> x \<noteq> NUL"
    and "c \<in> set delim \<or> c = NUL"
  shows "scan_token b delim s =
           Inr (if c = NUL then (b, None) else (b[s + length w := NUL], Some (Suc (s + length w))))"
  using assms
proof (induction w arbitrary: s)
  case Nil
  then have "s < length b" "b ! s = c"
    using drop_eq_ConsD [of s b c r] by simp_all
  with Nil show ?case by (simp add: scan_token.simps [of b delim s])
next
  case (Cons x w)
  then have "s < length b" "b ! s = x" "drop (Suc s) b = w @ c # r"
    using drop_eq_ConsD [of s b x "w @ c # r"] by simp_all
  moreover have "scan_token b delim (Suc s) =
           Inr (if c = NUL then (b, None) else (b[Suc s + length w := NUL], Some (Suc (Suc s + length w))))"
    using Cons.IH [of "Suc s"] Cons.prems \<open>drop (Suc s) b = w @ c # r\<close> by simp
  ultimately show ?case using Cons.prems by (simp add: scan_token.simps [of b delim s])
qed

lemma strtok_custom_none:
  assumes "(case sp of None \<Rightarrow> l | Some p \<Rightarrow> Some p) = Some s"
    and "drop s b = ds @ NUL # r" and "set ds \<subseteq> set delim" and "NUL \<notin> set delim"
  shows "strtok_custom sp delim (b, l) = Inr (None, (b, None))"
  using assms skip_leading_run [of s b ds NUL r delim]
  by (cases sp) (simp_all add: strtok_custom_def)

lemma strtok_custom_last:
  assumes "(case sp of None \<Rightarrow> l | Some p \<Rightarrow> Some p) = Some s"
    and "drop s b = ds @ w @ NUL # r" and "set ds \<subseteq> set delim" and "w \<noteq> []"
    and "\<forall>x\<in>set w. x \<notin> set delim \<and> x \<noteq> NUL"
  shows "strtok_custom sp delim (b, l) = Inr (Some (s + length ds), (b, None))"
proof -
  obtain c w' where w: "w = c # w'" using assms(4) by (cases w) auto
  have sk: "skip_leading b delim s = Inr (c, Suc (s + length ds))"
    using skip_leading_run [of s b ds c "w' @ NUL # r" delim] assms w by simp
  have "drop (s + length ds) b = c # w' @ NUL # r"
    using assms(2) w by (metis add.commute append_Cons append_eq_conv_conj drop_drop)
  then have "drop (Suc (s + length ds)) b = w' @ NUL # r"
    by (rule drop_eq_ConsD(3))
  then have "scan_token b delim (Suc (s + length ds)) = Inr (b, None)"
    using scan_token_run [of "Suc (s + length ds)" b w' NUL r delim] assms(5) w by simp
  with sk show ?thesis using assms(1,5) w by (cases sp) (simp_all add: strtok_custom_def)
qed

lemma strtok_custom_more:
  assumes "(case sp of None \<Rightarrow> l | Some p \<Rightarrow> Some p) = Some s"
    and "drop s b = ds @ w @ d # r" and "set ds \<subseteq> set delim" and "w \<noteq> []"
    and "\<forall>x\<in>set w. x \<notin> set delim \<and> x \<noteq> NUL" and "d \<in> set delim" and "d \<noteq> NUL"
  shows "strtok_custom sp delim (b, l) =
           Inr (Some (s + length ds),
                (b[s + length ds + length w := NUL], Some (Suc (s + length ds + length w))))"
proof -
  obtain c w' where w: "w = c # w'" using assms(4) by (cases w) auto
  have sk: "skip_leading b delim s = Inr (c, Suc (s + length ds))"
    using skip_leading_run [of s b ds c "w' @ d # r" delim] assms w by simp
  have "drop (s + length ds) b = c # w' @ d # r"
    using assms(2) w by (metis add.commute append_Cons append_eq_conv_conj drop_drop)
  then have "drop (Suc (s + length ds)) b = w' @ d # r"
    by (rule drop_eq_ConsD(3))
  then have "scan_token b delim (Suc (s + length ds)) =
      Inr (b[Suc (s + length ds) + length w' := NUL], Some (Suc (Suc (s + length ds) + length w')))"
    using scan_token_run [of "Suc (s + length ds)" b w' d r delim] assms(5,6,7) w by simp
  with sk show ?thesis using assms(1,5) w by (cases sp) (simp_all add: strtok_custom_def)
qed

subsection \<open>The tokens of a string\<close>

text \<open>
  The specification's tokens, by the same three shapes.
\<close>

lemma NUL_not_blank [simp]: "NUL \<noteq> CHR '' ''" "CHR '' '' \<noteq> NUL"
  by (simp_all add: NUL_def)

lemma tokens_all_delims:
  assumes "set s \<subseteq> set delim"
  shows "tokens delim s = []"
proof -
  have h: "dropWhile (\<lambda>c. c \<in> set delim) s = []"
    using assms by auto
  show ?thesis by (subst tokens.simps, subst h) simp
qed

lemma tokens_decomp:
  assumes "set ds \<subseteq> set delim" and "w \<noteq> []" and "\<forall>x\<in>set w. x \<notin> set delim"
    and "r = [] \<or> hd r \<in> set delim"
  shows "tokens delim (ds @ w @ r) = w # tokens delim r"
proof -
  obtain c w' where w: "w = c # w'" using assms(2) by (cases w) auto
  have d1: "dropWhile (\<lambda>c. c \<in> set delim) (ds @ w @ r) = c # w' @ r"
    using assms(1,3) w by (simp add: dropWhile_append2 subset_iff)
  have t: "takeWhile (\<lambda>x. x \<notin> set delim) r = []"
    using assms(4) by (cases r) auto
  have t2: "takeWhile (\<lambda>x. x \<notin> set delim) (w @ r) = w"
    using assms(3) t by (simp add: takeWhile_append2)
  have d: "dropWhile (\<lambda>x. x \<notin> set delim) r = r"
    using assms(4) by (cases r) auto
  have d2: "dropWhile (\<lambda>x. x \<notin> set delim) (w @ r) = r"
    using assms(3) d by (simp add: dropWhile_append2)
  show ?thesis
    using d1 t2 d2 w by (subst tokens.simps) simp
qed

lemma tokens_leading_delim: "d \<in> set delim \<Longrightarrow> tokens delim (d # s) = tokens delim s"
  by (subst tokens.simps, subst (2) tokens.simps) simp

lemma token_decomposition:
  obtains (none) "set str \<subseteq> set delim"
  | (some) ds w r where "str = ds @ w @ r" and "set ds \<subseteq> set delim" and "w \<noteq> []"
      and "\<forall>x\<in>set w. x \<notin> set delim" and "r = [] \<or> hd r \<in> set delim"
proof (cases "dropWhile (\<lambda>c. c \<in> set delim) str = []")
  case True
  then have "set str \<subseteq> set delim" by auto
  then show ?thesis by (rule none)
next
  case False
  let ?ds = "takeWhile (\<lambda>c. c \<in> set delim) str"
  let ?s1 = "dropWhile (\<lambda>c. c \<in> set delim) str"
  let ?w = "takeWhile (\<lambda>x. x \<notin> set delim) ?s1"
  let ?r = "dropWhile (\<lambda>x. x \<notin> set delim) ?s1"
  have "str = ?ds @ ?w @ ?r" by simp
  moreover have "set ?ds \<subseteq> set delim" by (auto dest: set_takeWhileD)
  moreover have "?w \<noteq> []"
    using False by (metis (mono_tags, lifting) hd_dropWhile takeWhile_eq_Nil_iff)
  moreover have "\<forall>x\<in>set ?w. x \<notin> set delim" by (auto dest: set_takeWhileD)
  moreover have "?r = [] \<or> hd ?r \<in> set delim"
    using hd_dropWhile [of "\<lambda>x. x \<notin> set delim" ?s1] by auto
  ultimately show ?thesis by (rule some)
qed

subsection \<open>The token loop of lines 255-262\<close>

text \<open>
  The loop stores pointers to exactly the tokens of the rest of the line, up to the
  first \<open>&\<close>; the strings they point to stay as they are while the loop goes on,
  since it writes only behind them.
\<close>

lemma holds_cstr: "holds b p t \<Longrightarrow> cstr b p = t"
proof -
  assume h: "holds b p t"
  then have "drop p b = (t @ [NUL]) @ drop (Suc (length t)) (drop p b)"
    unfolding holds_def by (metis append_take_drop_id)
  then have "cstr b p = takeWhile (\<lambda>c. c \<noteq> NUL) (t @ NUL # drop (Suc (length t)) (drop p b))"
    unfolding cstr_def by simp
  also have "\<dots> = t" using h unfolding holds_def by (auto simp: takeWhile_tail)
  finally show ?thesis .
qed

lemma holdsI: "drop p b = t @ NUL # r \<Longrightarrow> NUL \<notin> set t \<Longrightarrow> holds b p t"
  by (simp add: holds_def)

lemma holds_take:
  assumes "holds b p t" and "take n b' = take n b" and "p + length t < n"
  shows "holds b' p t"
proof -
  let ?m = "p + Suc (length t)"
  have "take ?m b' = take ?m (take n b')" using assms(3) by (simp add: min_def)
  also have "\<dots> = take ?m b" using assms(2,3) by (simp add: min_def)
  finally have "drop p (take ?m b') = drop p (take ?m b)" by simp
  then have "take (Suc (length t)) (drop p b') = take (Suc (length t)) (drop p b)"
    by (simp add: drop_take)
  with assms(1) show ?thesis by (simp add: holds_def)
qed

lemma tok_loop_done:
  "i < cap \<Longrightarrow> length tok = i \<Longrightarrow> tok_loop cap i tok (b, None) = Inr (tok @ [None], False, (b, None))"
  by (subst tok_loop.simps) (simp add: strtok_custom_def store_def)

lemma tok_loop_spec:
  assumes "drop s b = str @ NUL # r" and "NUL \<notin> set str" and "length tok = i"
    and "i + length (tokens '' '' str) < cap"
  shows "\<exists>ps b' l'. tok_loop cap i tok (b, Some s) =
            Inr (tok @ map Some ps @ [None], ''&'' \<in> set (tokens '' '' str), (b', l'))
          \<and> list_all2 (holds b') ps (takeWhile (\<lambda>t. t \<noteq> ''&'') (tokens '' '' str))
          \<and> take s b' = take s b \<and> length b' = length b
          \<and> drop (s + length str) b' = drop (s + length str) b"
  using assms
proof (induction "length str" arbitrary: str s b i tok rule: less_induct)
  case less
  show ?case
  proof (cases rule: token_decomposition [of str "'' ''"])
    case none
    have st: "strtok_custom None '' '' (b, Some s) = Inr (None, (b, None))"
      using strtok_custom_none [where sp = None and l = "Some s" and s = s and b = b and ds = str and r = r and delim = "'' ''"] less.prems(1) none by simp
    have tk: "tokens '' '' str = []"
      using none by (rule tokens_all_delims)
    have "tok_loop cap i tok (b, Some s) = Inr (tok @ [None], False, (b, None))"
      using st less.prems(3,4) by (subst tok_loop.simps) (simp add: store_def list_update_append)
    then show ?thesis
      using tk by (intro exI [of _ "[]"] exI [of _ b] exI [of _ None]) simp
  next
    case (some ds w r')
    let ?p = "s + length ds"
    have tk: "tokens '' '' str = w # tokens '' '' r'"
      using some tokens_decomp [of ds "'' ''" w r'] by simp
    have wn: "\<forall>x\<in>set w. x \<notin> set '' '' \<and> x \<noteq> NUL"
      using some less.prems(2) by auto
    have icap: "i < cap" using less.prems(4) by simp
    show ?thesis
    proof (cases r')
      case Nil
      have dr: "drop s b = ds @ w @ NUL # r"
        using less.prems(1) some(1) Nil by simp
      have st: "strtok_custom None '' '' (b, Some s) = Inr (Some ?p, (b, None))"
        using strtok_custom_last [where sp = None and l = "Some s" and s = s and b = b and ds = ds and w = w and r = r and delim = "'' ''"] dr some wn by simp
      have "drop ?p b = w @ NUL # r"
        using dr by (metis add.commute append_eq_conv_conj drop_drop)
      then have h: "holds b ?p w"
        using wn by (intro holdsI) auto
      show ?thesis
      proof (cases "w = ''&''")
        case True
        have "tok_loop cap i tok (b, Some s) = Inr (tok @ [None], True, (b, None))"
          using st icap less.prems(3) holds_cstr [OF h] True
          by (subst tok_loop.simps) (simp add: store_def list_update_append)
        then show ?thesis
          using tk True by (intro exI [of _ "[]"] exI [of _ b] exI [of _ None]) simp
      next
        case False
        have "tok_loop cap (Suc i) (tok @ [Some ?p]) (b, None) =
                Inr ((tok @ [Some ?p]) @ [None], False, (b, None))"
          using less.prems(3,4) tk by (intro tok_loop_done) simp_all
        then have "tok_loop cap i tok (b, Some s) = Inr (tok @ [Some ?p] @ [None], False, (b, None))"
          using st icap less.prems(3) holds_cstr [OF h] False
          by (subst tok_loop.simps) (simp add: store_def list_update_append)
        moreover have "tokens '' '' str = [w]"
          using tk Nil by (simp add: tokens_all_delims)
        ultimately show ?thesis
          using False h by (intro exI [of _ "[?p]"] exI [of _ b] exI [of _ None]) simp
      qed
    next
      case (Cons d r'')
      have d: "d = CHR '' ''" using some(5) Cons by simp
      let ?e = "?p + length w"
      let ?b1 = "b[?e := NUL]"
      have dr: "drop s b = ds @ w @ d # (r'' @ NUL # r)"
        using less.prems(1) some(1) Cons by simp
      have st: "strtok_custom None '' '' (b, Some s) = Inr (Some ?p, (?b1, Some (Suc ?e)))"
        using strtok_custom_more [where sp = None and l = "Some s" and s = s and b = b and ds = ds and w = w and d = d and r = "r'' @ NUL # r" and delim = "'' ''"] dr some wn d
        by simp
      have de: "drop ?e b = d # r'' @ NUL # r"
        using dr by (metis add.commute add.assoc append_eq_conv_conj drop_drop)
      have elen: "?e < length b" using de by (rule drop_eq_ConsD(1))
      have dp: "drop ?p ?b1 = w @ NUL # r'' @ NUL # r"
      proof -
        have "drop ?p b = w @ d # r'' @ NUL # r"
          using dr by (metis add.commute append_eq_conv_conj drop_drop)
        then have "drop ?p ?b1 = (w @ d # r'' @ NUL # r)[length w := NUL]"
          by (simp add: drop_update_swap)
        then show ?thesis by (simp add: list_update_append)
      qed
      then have h: "holds ?b1 ?p w"
        using wn by (intro holdsI) auto
      have dn: "drop (Suc ?e) ?b1 = r'' @ NUL # r"
        using de drop_eq_ConsD(3) [of ?e b d "r'' @ NUL # r"] by simp
      have tk2: "tokens '' '' str = w # tokens '' '' r''"
        using tk Cons d by (simp add: tokens_leading_delim)
      show ?thesis
      proof (cases "w = ''&''")
        case True
        have "tok_loop cap i tok (b, Some s) = Inr (tok @ [None], True, (?b1, Some (Suc ?e)))"
          using st icap less.prems(3) holds_cstr [OF h] True
          by (subst tok_loop.simps) (simp add: store_def list_update_append)
        moreover have "drop (s + length str) ?b1 = drop (s + length str) b"
          using some(1) Cons by (simp add: drop_update_cancel)
        ultimately show ?thesis
          using tk True by (intro exI [of _ "[]"] exI [of _ ?b1] exI [of _ "Some (Suc ?e)"]) simp
      next
        case False
        have "length r'' < length str" using some(1) Cons by simp
        moreover have "NUL \<notin> set r''" using less.prems(2) some(1) Cons by simp
        moreover have "length (tok @ [Some ?p]) = Suc i" using less.prems(3) by simp
        moreover have "Suc i + length (tokens '' '' r'') < cap" using less.prems(4) tk2 by simp
        ultimately obtain ps b' l' where
          rec: "tok_loop cap (Suc i) (tok @ [Some ?p]) (?b1, Some (Suc ?e)) =
                  Inr ((tok @ [Some ?p]) @ map Some ps @ [None], ''&'' \<in> set (tokens '' '' r''), (b', l'))"
          and all: "list_all2 (holds b') ps (takeWhile (\<lambda>t. t \<noteq> ''&'') (tokens '' '' r''))"
          and tke: "take (Suc ?e) b' = take (Suc ?e) ?b1" and len: "length b' = length b"
          and drp: "drop (Suc ?e + length r'') b' = drop (Suc ?e + length r'') ?b1"
          using less.hyps [of r'' "Suc ?e" ?b1 "tok @ [Some ?p]" "Suc i"] dn by auto
        have run: "tok_loop cap i tok (b, Some s) =
                Inr (tok @ map Some (?p # ps) @ [None], ''&'' \<in> set (tokens '' '' str), (b', l'))"
          using st icap less.prems(3) holds_cstr [OF h] False rec tk2
          by (subst tok_loop.simps) (simp add: store_def list_update_append)
        have h': "holds b' ?p w"
          using h tke by (rule holds_take) simp
        have "take s b' = take s (take (Suc ?e) b')" by (simp add: min_def)
        also have "\<dots> = take s ?b1" using tke by (simp add: min_def)
        also have "\<dots> = take s b" by simp
        finally have tk_s: "take s b' = take s b" .
        have eq: "Suc ?e + length r'' = s + length str" using some(1) Cons by simp
        have "drop (s + length str) b' = drop (s + length str) ?b1"
          using drp by (simp only: eq)
        also have "\<dots> = drop (s + length str) b"
          using eq by (simp add: drop_update_cancel)
        finally have drp_s: "drop (s + length str) b' = drop (s + length str) b" .
        show ?thesis
          using run h' all tk2 False tk_s len drp_s
          by (intro exI [of _ "?p # ps"] exI [of _ b'] exI [of _ l']) simp
      qed
    qed
  qed
qed

lemma tokens_count:
  "length (tokens delim s)
     \<le> length (filter (\<lambda>c. c \<in> set delim) s) + (if s = [] \<or> hd s \<in> set delim then 0 else 1)"
proof (induction "length s" arbitrary: s rule: less_induct)
  case less
  show ?case
  proof (cases rule: token_decomposition [of s delim])
    case none
    then show ?thesis by (simp add: tokens_all_delims)
  next
    case (some ds w r)
    have tk: "tokens delim s = w # tokens delim r"
      using some tokens_decomp [of ds delim w r] by simp
    have "length r < length s" using some(1,3) by simp
    then have "length (tokens delim r)
       \<le> length (filter (\<lambda>c. c \<in> set delim) r) + (if r = [] \<or> hd r \<in> set delim then 0 else 1)"
      by (rule less.hyps)
    then have ih: "length (tokens delim r) \<le> length (filter (\<lambda>c. c \<in> set delim) r)"
      using some(5) by (simp split: if_splits)
    have fds: "filter (\<lambda>c. c \<in> set delim) ds = ds"
      using some(2) by (auto simp: filter_id_conv)
    have fw: "filter (\<lambda>c. c \<in> set delim) w = []"
      using some(4) by (auto simp: filter_empty_conv)
    have cnt: "length (filter (\<lambda>c. c \<in> set delim) s) = length ds + length (filter (\<lambda>c. c \<in> set delim) r)"
      using some(1) fds fw by simp
    have "ds \<noteq> []" if "hd s \<in> set delim"
    proof
      assume "ds = []"
      then have "hd s = hd w" using some(1,3) by simp
      then show False using that some(3,4) by (cases w) auto
    qed
    then have lds: "1 \<le> length ds" if "hd s \<in> set delim"
      using that by (cases ds) auto
    have ne: "s \<noteq> []" using some(1,3) by simp
    show ?thesis
    proof (cases "hd s \<in> set delim")
      case True
      then show ?thesis using tk ih cnt lds [OF True] by simp
    next
      case False
      then show ?thesis using tk ih cnt ne by simp
    qed
  qed
qed

lemma cstr_line: "NUL \<notin> set line \<Longrightarrow> cstr (line @ NUL # r) 0 = line"
  by (auto simp: cstr_def takeWhile_tail)

lemma tokenize_line_spec:
  assumes "b = line @ NUL # r" and "NUL \<notin> set line" and "0 \<le> answers w (tick w)"
  shows "\<exists>ps extra b' l'.
      tokenize_line (b, l) w =
        Inr (Some (map Some ps @ None # extra, snd (cut_background (tokens '' '' line)), (b', l')),
             emit (Malloc (Suc (Suc (length (filter (\<lambda>c. c = CHR '' '') line)))) (answers w (tick w)))
               (w\<lparr>tick := Suc (tick w)\<rparr>))
      \<and> list_all2 (holds b') ps (fst (cut_background (tokens '' '' line)))
      \<and> length b' = length b \<and> drop (length line) b' = drop (length line) b"
proof -
  let ?cap = "length (filter (\<lambda>c. c = CHR '' '') line) + 1 + 1"
  let ?w1 = "emit (Malloc ?cap (answers w (tick w))) (w\<lparr>tick := Suc (tick w)\<rparr>)"
  have nul: "NUL \<in> set b" using assms(1) by simp
  have m: "malloc ?cap w = (True, ?w1)"
    using assms(3) by (simp only: malloc_def ask_def prod.case simp_thms)
  have c: "cstr b 0 = line" using assms(1,2) by (simp add: cstr_line)
  have unfold: "tokenize_line (b, l) w =
     (case strtok_custom (Some 0) '' '' (b, l) of
           Inl e \<Rightarrow> Inl e
         | Inr (t0, st1) \<Rightarrow>
        (case store ''tok'' ?cap [] 0 t0 of
           Inl e \<Rightarrow> Inl e
         | Inr tok0 \<Rightarrow>
        (case tok_loop ?cap 1 tok0 st1 of
           Inl e \<Rightarrow> Inl e
         | Inr r \<Rightarrow> Inr (Some r, ?w1))))"
    by (simp only: tokenize_line_def Let_def fst_conv c nul m not_True_eq_False if_False
        prod.case bool.case)
  have d0: "drop 0 b = line @ NUL # r" using assms(1) by simp
  show ?thesis
  proof (cases rule: token_decomposition [of line "'' ''"])
    case none
    have st: "strtok_custom (Some 0) '' '' (b, l) = Inr (None, (b, None))"
      using strtok_custom_none [where sp = "Some 0" and l = l and s = 0 and b = b and ds = line
          and r = r and delim = "'' ''"] d0 none by simp
    have tk: "tokens '' '' line = []" using none by (rule tokens_all_delims)
    have "tok_loop ?cap 1 [None] (b, None) = Inr ([None] @ [None], False, (b, None))"
      by (intro tok_loop_done) simp_all
    then have "tokenize_line (b, l) w = Inr (Some ([None, None], False, (b, None)), ?w1)"
      using unfold st by (simp add: store_def)
    then show ?thesis
      using tk by (intro exI [of _ "[]"] exI [of _ "[None]"] exI [of _ b] exI [of _ None]) simp
  next
    case (some ds w' r')
    let ?p = "length ds"
    have tk: "tokens '' '' line = w' # tokens '' '' r'"
      using some tokens_decomp [of ds "'' ''" w' r'] by simp
    have wn: "\<forall>x\<in>set w'. x \<notin> set '' '' \<and> x \<noteq> NUL"
      using some assms(2) by auto
    show ?thesis
    proof (cases r')
      case Nil
      have dr: "drop 0 b = ds @ w' @ NUL # r"
        using d0 some(1) Nil by simp
      have st: "strtok_custom (Some 0) '' '' (b, l) = Inr (Some ?p, (b, None))"
        using strtok_custom_last [where sp = "Some 0" and l = l and s = 0 and b = b and ds = ds
            and w = w' and r = r and delim = "'' ''"] dr some wn by simp
      have "drop ?p b = w' @ NUL # r"
        using dr by (metis append_eq_conv_conj drop0)
      then have h: "holds b ?p w'"
        using wn by (intro holdsI) auto
      have "tok_loop ?cap 1 [Some ?p] (b, None) = Inr ([Some ?p] @ [None], False, (b, None))"
        by (intro tok_loop_done) simp_all
      then have "tokenize_line (b, l) w = Inr (Some ([Some ?p, None], False, (b, None)), ?w1)"
        using unfold st by (simp add: store_def)
      moreover have "tokens '' '' line = [w']"
        using tk Nil by (simp add: tokens_all_delims)
      ultimately show ?thesis
        using h by (intro exI [of _ "[?p]"] exI [of _ "[]"] exI [of _ b] exI [of _ None]) simp
    next
      case (Cons d r'')
      have d: "d = CHR '' ''" using some(5) Cons by simp
      let ?e = "?p + length w'"
      let ?b1 = "b[?e := NUL]"
      have dr: "drop 0 b = ds @ w' @ d # (r'' @ NUL # r)"
        using d0 some(1) Cons by simp
      have st: "strtok_custom (Some 0) '' '' (b, l) = Inr (Some ?p, (?b1, Some (Suc ?e)))"
        using strtok_custom_more [where sp = "Some 0" and l = l and s = 0 and b = b and ds = ds
            and w = w' and d = d and r = "r'' @ NUL # r" and delim = "'' ''"] dr some wn d
        by simp
      have de: "drop ?e b = d # r'' @ NUL # r"
        using dr by (metis append_eq_conv_conj drop0 drop_drop add.commute)
      have dp: "drop ?p ?b1 = w' @ NUL # r'' @ NUL # r"
      proof -
        have "drop ?p b = w' @ d # r'' @ NUL # r"
          using dr by (metis append_eq_conv_conj drop0)
        then have "drop ?p ?b1 = (w' @ d # r'' @ NUL # r)[length w' := NUL]"
          by (simp add: drop_update_swap)
        then show ?thesis by (simp add: list_update_append)
      qed
      then have h: "holds ?b1 ?p w'"
        using wn by (intro holdsI) auto
      have dn: "drop (Suc ?e) ?b1 = r'' @ NUL # r"
        using de drop_eq_ConsD(3) [of ?e b d "r'' @ NUL # r"] by simp
      have tk2: "tokens '' '' line = w' # tokens '' '' r''"
        using tk Cons d by (simp add: tokens_leading_delim)
      have "length (tokens '' '' r'') \<le> length (filter (\<lambda>c. c \<in> set '' '') r'') + 1"
        using tokens_count [of "'' ''" r''] by (simp split: if_splits)
      moreover have "length (filter (\<lambda>c. c = CHR '' '') r'') < length (filter (\<lambda>c. c = CHR '' '') line)"
        using some(1) Cons d by simp
      ultimately have cap: "1 + length (tokens '' '' r'') < ?cap" by simp
      have "NUL \<notin> set r''" using assms(2) some(1) Cons by simp
      then obtain ps b' l' where
        rec: "tok_loop ?cap 1 [Some ?p] (?b1, Some (Suc ?e)) =
                  Inr ([Some ?p] @ map Some ps @ [None], ''&'' \<in> set (tokens '' '' r''), (b', l'))"
        and all: "list_all2 (holds b') ps (takeWhile (\<lambda>t. t \<noteq> ''&'') (tokens '' '' r''))"
        and tke: "take (Suc ?e) b' = take (Suc ?e) ?b1" and len: "length b' = length b"
        and drp: "drop (Suc ?e + length r'') b' = drop (Suc ?e + length r'') ?b1"
        using tok_loop_spec [of "Suc ?e" ?b1 r'' r "[Some ?p]" 1 ?cap] dn cap by auto
      have run: "tokenize_line (b, l) w =
          Inr (Some (map Some (?p # ps) @ [None], ''&'' \<in> set (tokens '' '' r''), (b', l')), ?w1)"
        using unfold st rec by (simp add: store_def)
      have h': "holds b' ?p w'"
        using h tke by (rule holds_take) simp
      have eq: "Suc ?e + length r'' = length line" using some(1) Cons by simp
      have "drop (length line) b' = drop (length line) ?b1"
        using drp by (simp only: eq)
      also have "\<dots> = drop (length line) b"
        using eq by (simp add: drop_update_cancel)
      finally have drp_s: "drop (length line) b' = drop (length line) b" .
      show ?thesis
        using run h' all tk2 len drp_s
        by (intro exI [of _ "?p # ps"] exI [of _ "[]"] exI [of _ b'] exI [of _ l']) simp
    qed
  qed
qed

subsection \<open>The tokenizer stays inside a terminated buffer\<close>

text \<open>
  With a NUL at index \<open>z\<close> and all pointers at most \<open>z\<close>, no call of the tokenizer
  reads beyond \<open>z\<close>, and the pointers it returns are at most \<open>z\<close> again.
\<close>

lemma skip_leading_total:
  assumes "z < length b" and "b ! z = NUL" and "NUL \<notin> set delim" and "s \<le> z"
  shows "\<exists>c s'. skip_leading b delim s = Inr (c, s') \<and> s < s' \<and> s' \<le> Suc z
           \<and> (c \<noteq> NUL \<longrightarrow> s' \<le> z)"
  using assms(4)
proof (induction "z - s" arbitrary: s)
  case 0
  then have "s = z" by simp
  then show ?case using assms(1,2,3) by (simp add: skip_leading.simps [of b delim z])
next
  case (Suc n)
  then have lt: "s < z" and "n = z - Suc s" and "Suc s \<le> z" by simp_all
  then obtain c s' where "skip_leading b delim (Suc s) = Inr (c, s')" "Suc s < s'" "s' \<le> Suc z"
      "c \<noteq> NUL \<longrightarrow> s' \<le> z"
    using Suc.hyps(1) [of "Suc s"] by blast
  then show ?case
    using lt assms(1) by (auto simp: skip_leading.simps [of b delim s])
qed

lemma scan_token_total:
  assumes "z < length b" and "b ! z = NUL" and "s \<le> z"
  shows "\<exists>b' l'. scan_token b delim s = Inr (b', l') \<and> length b' = length b \<and> b' ! z = NUL
           \<and> ptr_le z l'"
  using assms(3)
proof (induction "z - s" arbitrary: s)
  case 0
  then have "s = z" by simp
  then show ?case using assms(1,2) by (simp add: scan_token.simps [of b delim z] ptr_le_def)
next
  case (Suc n)
  then have lt: "s < z" and "n = z - Suc s" and "Suc s \<le> z" by simp_all
  then obtain b' l' where "scan_token b delim (Suc s) = Inr (b', l')" "length b' = length b"
      "b' ! z = NUL" "ptr_le z l'"
    using Suc.hyps(1) [of "Suc s"] by blast
  then show ?case
    using lt assms(1,2) by (auto simp: scan_token.simps [of b delim s] ptr_le_def)
qed

lemma strtok_custom_total:
  assumes "wf_buf z (b, l)" and "NUL \<notin> set delim" and "ptr_le z sp"
  shows "\<exists>t b' l'. strtok_custom sp delim (b, l) = Inr (t, (b', l')) \<and> length b' = length b
           \<and> wf_buf z (b', l') \<and> ptr_le z t"
proof (cases "case sp of None \<Rightarrow> l | Some p \<Rightarrow> Some p")
  case None
  then show ?thesis
    using assms(1) by (cases sp) (auto simp: strtok_custom_def ptr_le_def)
next
  case (Some p)
  then have pz: "p \<le> z"
    using assms(1,3) by (cases sp) (auto simp: wf_buf_def ptr_le_def)
  have z: "z < length b" "b ! z = NUL" using assms(1) by (simp_all add: wf_buf_def)
  obtain c s1 where sk: "skip_leading b delim p = Inr (c, s1)" "s1 \<le> Suc z" "c \<noteq> NUL \<longrightarrow> s1 \<le> z"
      and s1: "p < s1"
    using skip_leading_total [OF z assms(2) pz] by blast
  show ?thesis
  proof (cases "c = NUL")
    case True
    then show ?thesis
      using Some sk z by (cases sp) (auto simp: strtok_custom_def wf_buf_def ptr_le_def)
  next
    case False
    then have "s1 \<le> z" using sk(3) by simp
    then obtain b' l' where "scan_token b delim s1 = Inr (b', l')" "length b' = length b"
        "b' ! z = NUL" "ptr_le z l'"
      using scan_token_total [OF z, of s1 delim] by blast
    then show ?thesis
      using Some sk z False \<open>s1 \<le> z\<close>
      by (cases sp) (auto simp: strtok_custom_def wf_buf_def ptr_le_def)
  qed
qed

lemma args_loop_total:
  assumes "wf_buf z st" and "ptr_le z tok" and "length args = j" and "j \<le> 15"
  shows "\<exists>args' j' st'. args_loop j args tok st = Inr (args', j', st') \<and> wf_buf z st'
           \<and> length args' = j' \<and> j' \<le> 15"
  using assms
proof (induction "15 - j" arbitrary: j args tok st)
  case 0
  then have "args_loop j args tok st = Inr (args, j, st)"
    by (subst args_loop.simps) (simp split: option.splits)
  then show ?case using 0 by simp
next
  case (Suc n)
  show ?case
  proof (cases tok)
    case None
    then have "args_loop j args tok st = Inr (args, j, st)"
      by (subst args_loop.simps) simp
    then show ?thesis using Suc.prems by simp
  next
    case (Some p)
    have j: "j < 15" using Suc.hyps(2) by simp
    obtain b l where st: "st = (b, l)" by (cases st)
    obtain t b' l' where tk: "strtok_custom None '' '' (b, l) = Inr (t, (b', l'))"
        "wf_buf z (b', l')" "ptr_le z t"
      using strtok_custom_total [of z b l "'' ''" None] Suc.prems(1) st
      by (auto simp: ptr_le_def)
    have "\<exists>args' j' st'. args_loop (Suc j) (args @ [tok]) t (b', l') = Inr (args', j', st')
            \<and> wf_buf z st' \<and> length args' = j' \<and> j' \<le> 15"
      using Suc.hyps(2) Suc.prems(3) j tk by (intro Suc.hyps(1)) simp_all
    moreover have "args_loop j args tok st = args_loop (Suc j) (args @ [tok]) t (b', l')"
      using Some j st tk(1) Suc.prems(3)
      by (subst args_loop.simps) (simp add: store_def)
    ultimately show ?thesis by simp
  qed
qed

subsection \<open>The loop over the stages of a pipeline\<close>



lemma sys_close_simps [simp]:
  "trace (sys_close fd w) = trace w @ [Close fd]"
  "answers (sys_close fd w) = answers w"
  "children (sys_close fd w) = children w"
  "tick (sys_close fd w) = tick w"
  "npipes (sys_close fd w) = npipes w"
  by (simp_all add: sys_close_def emit_def)


lemma wait_loop_counts:
  "length (filter is_wait (trace (wait_loop n w))) = length (filter is_wait (trace w)) + n
   \<and> length (filter is_pipe (trace (wait_loop n w))) = length (filter is_pipe (trace w))
   \<and> length (filter is_fork (trace (wait_loop n w))) = length (filter is_fork (trace w))"
proof (induction n arbitrary: w)
  case 0
  show ?case by simp
next
  case (Suc n)
  have "trace (snd (sys_wait w)) = trace w @ [Wait (fst (sys_wait w))]"
    by (simp add: sys_wait_def emit_def split: list.splits)
  then show ?case using Suc [of "snd (sys_wait w)"] by simp
qed

subsection \<open>The scan for the redirection\<close>

lemma red_scan_prefix:
  assumes "tok = map Some ps @ Some q # out # rest" and "\<forall>p\<in>set ps. cstr b p \<noteq> ''>''"
    and "cstr b q = ''>''" and "length ps < 15" and "i \<le> length ps"
  shows "red_scan b tok i (map Some (take i ps)) =
           Inr (length ps, map Some ps, out, tok[length ps := None])"
  using assms(5)
proof (induction "length ps - i" arbitrary: i)
  case 0
  then have i: "i = length ps" by simp
  have "rd tok i = Inr (Some q)" "rd tok (Suc i) = Inr out"
    using assms(1) i by (simp_all add: rd_def nth_append)
  then show ?case
    using i assms(3,4) by (subst red_scan.simps) simp
next
  case (Suc n)
  then have i: "i < length ps" by simp
  then have "rd tok i = Inr (Some (ps ! i))"
    using assms(1) by (simp add: rd_def nth_append)
  moreover have "cstr b (ps ! i) \<noteq> ''>''" using assms(2) i by simp
  moreover have "store ''cmd_args'' MAXTOKENS (map Some (take i ps)) i (Some (ps ! i))
                   = Inr (map Some (take (Suc i) ps))"
    using i assms(4) by (simp add: store_def take_Suc_conv_app_nth)
  moreover have "red_scan b tok (Suc i) (map Some (take (Suc i) ps)) =
           Inr (length ps, map Some ps, out, tok[length ps := None])"
    using Suc.hyps(2) i by (intro Suc.hyps(1)) simp_all
  ultimately show ?case
    using i assms(4) by (subst red_scan.simps) simp
qed

lemma red_scan_found:
  assumes "tok = map Some ps @ Some q # out # rest" and "\<forall>p\<in>set ps. cstr b p \<noteq> ''>''"
    and "cstr b q = ''>''" and "length ps < 15"
  shows "red_scan b tok 0 [] = Inr (length ps, map Some ps, out, tok[length ps := None])"
  using red_scan_prefix [OF assms, of 0] by simp

lemma argv_Some: "argv b (map Some ps @ None # extra) = map (cstr b) ps"
  by (induction ps) simp_all

lemma argv_holds:
  "list_all2 (holds b) ps ts \<Longrightarrow> argv b (map Some ps @ None # extra) = ts"
  by (induction ps ts rule: list_all2_induct) (simp_all add: holds_cstr)

lemma fdalloc_le: "fdalloc t \<le> length t"
  by (induction t rule: fdalloc.induct) simp_all

lemma install_fdalloc:
  "fdalloc t < length (install t (fdalloc t) f) \<and> install t (fdalloc t) f ! fdalloc t = Some f"
  using fdalloc_le [of t] by (auto simp: install_def nth_append)

subsection \<open>The parser\<close>

lemma cstr_split:
  assumes "NUL \<in> set b"
  shows "b = cstr b 0 @ NUL # drop (Suc (length (cstr b 0))) b" and "NUL \<notin> set (cstr b 0)"
proof -
  have "dropWhile (\<lambda>c. c \<noteq> NUL) b \<noteq> []"
    using assms by (simp add: dropWhile_eq_Nil_conv)
  then obtain y ys where d: "dropWhile (\<lambda>c. c \<noteq> NUL) b = y # ys"
    by (cases "dropWhile (\<lambda>c. c \<noteq> NUL) b") auto
  then have y: "y = NUL" using hd_dropWhile [of "\<lambda>c. c \<noteq> NUL" b] by simp
  have b: "b = cstr b 0 @ NUL # ys"
    using d y takeWhile_dropWhile_id [of "\<lambda>c. c \<noteq> NUL" b] by (simp add: cstr_def)
  then have "drop (Suc (length (cstr b 0))) b = ys"
    by (metis append_eq_conv_conj drop_Suc_Cons drop_drop plus_1_eq_Suc add.commute drop_eq_ConsD(3))
  with b show "b = cstr b 0 @ NUL # drop (Suc (length (cstr b 0))) b" by simp
  show "NUL \<notin> set (cstr b 0)"
    by (auto simp: cstr_def dest: set_takeWhileD)
qed

lemma wait_for_background_processes_spec:
  "trace (wait_for_background_processes w) =
     trace w @ map (\<lambda>p. Wait (int p)) (children w) @ [Wait (- 1)]
   \<and> children (wait_for_background_processes w) = []"
proof (induction "children w" arbitrary: w)
  case Nil
  then show ?case
    by (subst (1 2) wait_for_background_processes.simps) (simp add: sys_wait_def emit_def)
next
  case (Cons p ps)
  let ?w1 = "emit (Wait (int p)) (w\<lparr>children := ps\<rparr>)"
  have "ps = children ?w1" by (simp add: emit_def)
  then have "trace (wait_for_background_processes ?w1) =
     trace ?w1 @ map (\<lambda>p. Wait (int p)) (children ?w1) @ [Wait (- 1)]
   \<and> children (wait_for_background_processes ?w1) = []"
    by (rule Cons.hyps(1))
  moreover have "wait_for_background_processes w = wait_for_background_processes ?w1"
    using Cons.hyps(2) [symmetric]
    by (subst wait_for_background_processes.simps) (simp add: sys_wait_def)
  ultimately show ?case
    using Cons.hyps(2) [symmetric] by (simp add: emit_def)
qed

lemma exit_check_holds:
  assumes "list_all2 (holds b) ps ts"
  shows "exit_check b (map Some ps @ None # extra) = Inr (take 1 ts = [''exit''])"
  using assms
  by (cases rule: list_all2_induct [OF assms]) (auto simp: exit_check_def rd_def holds_cstr)

lemma parse_cmd_spec:
  assumes "NUL \<in> set b" and "0 \<le> answers w (tick w)"
  shows "\<exists>tok b' l'.
      argv b' tok = fst (cut_background (tokens '' '' (cstr b 0)))
    \<and> (\<exists>ps extra. tok = map Some ps @ None # extra)
    \<and> length b' = length b
    \<and> drop (length (cstr b 0)) b' = drop (length (cstr b 0)) b
    \<and> parse_cmd (b, l) w =
        (let w1 = emit (Malloc (Suc (Suc (length (filter (\<lambda>c. c = CHR '' '') (cstr b 0)))))
                          (answers w (tick w))) (w\<lparr>tick := Suc (tick w)\<rparr>);
             args = fst (cut_background (tokens '' '' (cstr b 0)));
             bg = snd (cut_background (tokens '' '' (cstr b 0)))
         in if take 1 args = [''exit''] then Inr (Builtin_exit, (b', l'), w1)
            else if ''|'' \<in> set args then
              (case pipe_split (b', l') of
                 Inl e \<Rightarrow> Inl e
               | Inr (commands, n, st2) \<Rightarrow> Inr (Pipeline commands n, st2, w1))
            else if ''>'' \<in> set args then Inr (Redirected tok bg, (b', l'), w1)
            else Inr (Plain tok bg, (b', l'), w1))"
proof -
  let ?line = "cstr b 0"
  let ?w1 = "emit (Malloc (Suc (Suc (length (filter (\<lambda>c. c = CHR '' '') ?line))))
                          (answers w (tick w))) (w\<lparr>tick := Suc (tick w)\<rparr>)"
  let ?args = "fst (cut_background (tokens '' '' ?line))"
  let ?bg = "snd (cut_background (tokens '' '' ?line))"
  obtain ps extra b' l' where
    tl: "tokenize_line (b, l) w = Inr (Some (map Some ps @ None # extra, ?bg, (b', l')), ?w1)"
    and all: "list_all2 (holds b') ps ?args"
    and len: "length b' = length b" and drp: "drop (length ?line) b' = drop (length ?line) b"
    using tokenize_line_spec [OF cstr_split [OF assms(1)] assms(2), of l] by blast
  let ?tok = "map Some ps @ None # extra"
  have av: "argv b' ?tok = ?args" using all by (rule argv_holds)
  have ec: "exit_check b' ?tok = Inr (take 1 ?args = [''exit''])"
    using all by (rule exit_check_holds)
  have "parse_cmd (b, l) w =
        (if take 1 ?args = [''exit''] then Inr (Builtin_exit, (b', l'), ?w1)
            else if ''|'' \<in> set ?args then
              (case pipe_split (b', l') of
                 Inl e \<Rightarrow> Inl e
               | Inr (commands, n, st2) \<Rightarrow> Inr (Pipeline commands n, st2, ?w1))
            else if ''>'' \<in> set ?args then Inr (Redirected ?tok ?bg, (b', l'), ?w1)
            else Inr (Plain ?tok ?bg, (b', l'), ?w1))"
    using tl av ec by (simp add: parse_cmd_def split: sum.splits prod.splits)
  then show ?thesis
    using av len drp by (intro exI [of _ ?tok] exI [of _ b'] exI [of _ l']) (auto simp: Let_def)
qed

lemma takeWhile_upto_first:
  "x \<notin> set pre \<Longrightarrow> takeWhile (\<lambda>y. y \<noteq> x) (pre @ x # post) = pre"
  by (induction pre) auto

lemma sys_fork_any:
  "\<exists>w1. sys_fork w = (answers w (tick w), w1) \<and> answers w1 = answers w
        \<and> tick w1 = Suc (tick w)"
  by (simp add: sys_fork_def ask_def emit_def)

subsection \<open>Every executor returns to the shell\<close>

text \<open>
  In a process that never is the child of a \<open>fork\<close>, the split at \<open>|\<close> and the three
  executors run to their end whatever the environment answers; the one exception is
  the sentinel store of the split.
\<close>

lemma NUL_not_bar [simp]: "NUL \<noteq> CHR ''|''"
  by (simp add: NUL_def)

lemma strtok_custom_restart:
  "strtok_custom (Some p) delim (b, l) = strtok_custom (Some p) delim (b, None)"
  by (simp add: strtok_custom_def split: sum.splits prod.splits)

lemma trim_total:
  assumes "z < length b" and "b ! z = NUL" and "p \<le> z"
  shows "\<exists>p'. trim b p = Inr p' \<and> p' \<le> z"
  using assms(3)
proof (induction "z - p" arbitrary: p)
  case 0
  then have "p = z" by simp
  then show ?case using assms(1,2) by (simp add: trim.simps [of b z])
next
  case (Suc n)
  then have lt: "p < z" and "n = z - Suc p" and "Suc p \<le> z" by simp_all
  then obtain p' where "trim b (Suc p) = Inr p'" "p' \<le> z"
    using Suc.hyps(1) [of "Suc p"] by blast
  then show ?case
    using lt assms(1) by (auto simp: trim.simps [of b p])
qed

lemma split_loop_total:
  assumes "wf_buf z st" and "ptr_le z cmd" and "length commands = n" and "n \<le> 16"
    and "\<forall>c\<in>set commands. ptr_le z c"
  shows "\<exists>commands' n' st'. split_loop n commands cmd st = Inr (commands', n', st')
           \<and> wf_buf z st' \<and> length commands' = n' \<and> n' \<le> 16
           \<and> (\<forall>c\<in>set commands'. ptr_le z c)"
  using assms
proof (induction "16 - n" arbitrary: n commands cmd st)
  case 0
  then have "split_loop n commands cmd st = Inr (commands, n, st)"
    by (subst split_loop.simps) (simp split: option.splits)
  then show ?case using 0 by simp
next
  case (Suc m)
  show ?case
  proof (cases cmd)
    case None
    then have "split_loop n commands cmd st = Inr (commands, n, st)"
      by (subst split_loop.simps) simp
    then show ?thesis using Suc.prems by simp
  next
    case (Some p)
    have n: "n < 16" using Suc.hyps(2) by simp
    obtain b l where st: "st = (b, l)" by (cases st)
    have z: "z < length b" "b ! z = NUL" using Suc.prems(1) st by (simp_all add: wf_buf_def)
    have "p \<le> z" using Suc.prems(2) Some by (simp add: ptr_le_def)
    then obtain p' where tr: "trim b p = Inr p'" "p' \<le> z"
      using trim_total [OF z] by blast
    obtain t b' l' where tk: "strtok_custom None ''|'' (b, l) = Inr (t, (b', l'))"
        "wf_buf z (b', l')" "ptr_le z t"
      using strtok_custom_total [of z b l "''|''" None] Suc.prems(1) st
      by (auto simp: ptr_le_def)
    have "\<exists>commands' n' st'. split_loop (Suc n) (commands @ [Some p']) t (b', l')
             = Inr (commands', n', st')
           \<and> wf_buf z st' \<and> length commands' = n' \<and> n' \<le> 16
           \<and> (\<forall>c\<in>set commands'. ptr_le z c)"
      using Suc.hyps(2) Suc.prems(3,5) n tk tr(2)
      by (intro Suc.hyps(1)) (simp_all add: ptr_le_def)
    moreover have "split_loop n commands cmd st = split_loop (Suc n) (commands @ [Some p']) t (b', l')"
      using Some n st tk(1) tr(1) Suc.prems(3)
      by (subst split_loop.simps) (simp add: store_def)
    ultimately show ?thesis by simp
  qed
qed

lemma pipe_split_total:
  assumes "z < length b" and "b ! z = NUL"
  shows "pipe_split (b, l) = Inl (Store_out_of_bounds ''commands'' MAXTOKENS)
       \<or> (\<exists>commands n st'. pipe_split (b, l) = Inr (commands, n, st') \<and> wf_buf z st'
             \<and> n \<le> length commands \<and> (\<forall>i<n. ptr_le z (commands ! i)))"
proof -
  have wf: "wf_buf z (b, None)" using assms by (simp add: wf_buf_def)
  obtain cmd st1 where tk: "strtok_custom (Some 0) ''|'' (b, l) = Inr (cmd, st1)"
      "wf_buf z st1" "ptr_le z cmd"
    using strtok_custom_total [OF wf, of "''|''" "Some 0"] strtok_custom_restart [of 0 "''|''" b l]
    by (auto simp: ptr_le_def)
  obtain commands n st2 where sl: "split_loop 0 [] cmd st1 = Inr (commands, n, st2)"
      "wf_buf z st2" "length commands = n" "n \<le> 16" "\<forall>c\<in>set commands. ptr_le z c"
    using split_loop_total [of z st1 cmd "[]" 0] tk by auto
  show ?thesis
  proof (cases "n = 16")
    case True
    then have "pipe_split (b, l) = Inl (Store_out_of_bounds ''commands'' MAXTOKENS)"
      using tk(1) sl(1) by (simp add: pipe_split_def store_def)
    then show ?thesis by simp
  next
    case False
    then have "pipe_split (b, l) = Inr (commands @ [None], n, st2)"
      using tk(1) sl(1,3,4) by (simp add: pipe_split_def store_def)
    moreover have "\<forall>i<n. ptr_le z ((commands @ [None]) ! i)"
      using sl(3,5) by (simp add: nth_append)
    ultimately show ?thesis using sl(2,3) by simp
  qed
qed

lemma sys_pipe_cases:
  "(\<exists>w1. sys_pipe w = (None, w1)) \<or>
   (\<exists>fd0 fd1 w1. sys_pipe w = (Some (fd0, fd1), w1) \<and> answers w1 = answers w)"
  by (simp add: sys_pipe_def ask_def emit_def Let_def)

lemma pipe_loop_returns:
  assumes "wf_buf z st" and "n \<le> length commands" and "\<forall>i<n. ptr_le z (commands ! i)"
    and "\<forall>k. answers w k \<noteq> 0"
  shows "\<exists>r st' w'. pipe_loop commands n i inp st w = Inr (r, st', w')
           \<and> (r = None \<or> r = Some (Return (- 1)))"
  using assms(1,4)
proof (induction "n - i" arbitrary: i inp st w)
  case 0
  then show ?case by (simp add: pipe_loop.simps [of commands n i inp st w])
next
  case (Suc m)
  have i: "i < n" using Suc.hyps(2) by simp
  have rd: "rd commands i = Inr (commands ! i)" using i assms(2) by (simp add: rd_def)
  obtain b l where st: "st = (b, l)" by (cases st)
  obtain tok st1 where tk: "strtok_custom (commands ! i) '' '' st = Inr (tok, st1)"
      "wf_buf z st1" "ptr_le z tok"
    using strtok_custom_total [of z b l "'' ''" "commands ! i"] Suc.prems(1) st assms(3) i
    by auto
  obtain args0 j st2 where al: "args_loop 0 [] tok st1 = Inr (args0, j, st2)" "wf_buf z st2"
      "length args0 = j" "j \<le> 15"
    using args_loop_total [of z st1 tok "[]" 0] tk by auto
  have sto: "store ''args'' MAXTOKENS args0 j None = Inr (args0 @ [None])"
    using al(3,4) by (simp add: store_def)
  consider (fail) w1 where "sys_pipe w = (None, w1)"
    | (ok) fd0 fd1 w1 where "sys_pipe w = (Some (fd0, fd1), w1)" "answers w1 = answers w"
    using sys_pipe_cases [of w] by blast
  then show ?case
  proof cases
    case fail
    then show ?thesis
      using i rd tk(1) al(1) sto by (subst pipe_loop.simps) simp
  next
    case ok
    obtain w2 where fo: "sys_fork w1 = (answers w1 (tick w1), w2)" "answers w2 = answers w1"
      using sys_fork_any [of w1] by blast
    have nz: "answers w1 (tick w1) \<noteq> 0" using Suc.prems(2) ok(2) by simp
    show ?thesis
    proof (cases "answers w1 (tick w1) < 0")
      case True
      then show ?thesis
        using i rd tk(1) al(1) sto ok(1) fo(1) by (subst pipe_loop.simps) simp
    next
      case False
      let ?w3 = "if inp \<noteq> 0 then sys_close inp w2 else w2"
      let ?w4 = "sys_close fd1 ?w3"
      have step: "pipe_loop commands n i inp st w = pipe_loop commands n (Suc i) fd0 st2 ?w4"
        using i rd tk(1) al(1) sto ok(1) fo(1) nz False
        by (subst pipe_loop.simps) (simp add: Let_def)
      have a4: "answers ?w4 = answers w" using fo(2) ok(2) by simp
      have "\<exists>r st' w'. pipe_loop commands n (Suc i) fd0 st2 ?w4 = Inr (r, st', w')
           \<and> (r = None \<or> r = Some (Return (- 1)))"
        using Suc.hyps(2) al(2) a4 Suc.prems(2) by (intro Suc.hyps(1)) simp_all
      then show ?thesis using step by simp
    qed
  qed
qed

lemma execute_piped_commands_returns:
  assumes "wf_buf z st" and "n \<le> length commands" and "\<forall>i<n. ptr_le z (commands ! i)"
    and "\<forall>k. answers w k \<noteq> 0"
  shows "\<exists>r st' w'. execute_piped_commands commands n st w = Inr (Return r, st', w')"
proof -
  obtain r st' w' where "pipe_loop commands n 0 0 st w = Inr (r, st', w')"
      "r = None \<or> r = Some (Return (- 1))"
    using pipe_loop_returns [OF assms, of 0 0] by blast
  then show ?thesis by (auto simp: execute_piped_commands_def)
qed

lemma red_scan_total:
  assumes "tok = map Some ps @ None # extra" and "i \<le> length ps" and "length ca = i"
    and "i \<le> 15"
  shows "\<exists>i' ca' out tok'. red_scan b tok i ca = Inr (i', ca', out, tok') \<and> length ca' = i'
           \<and> i' \<le> 15"
  using assms(2,3,4)
proof (induction "length ps - i" arbitrary: i ca)
  case 0
  then have "rd tok i = Inr None"
    using assms(1) by (simp add: rd_def nth_append)
  then show ?case
    using 0 by (subst red_scan.simps) simp
next
  case (Suc n)
  then have i: "i < length ps" by simp
  then have rd: "rd tok i = Inr (Some (ps ! i))"
    using assms(1) by (simp add: rd_def nth_append)
  have rd1: "\<exists>out. rd tok (Suc i) = Inr out"
    using assms(1) i by (simp add: rd_def)
  show ?case
  proof (cases "i < 15 \<and> cstr b (ps ! i) \<noteq> ''>''")
    case True
    have "\<exists>i' ca' out tok'. red_scan b tok (Suc i) (ca @ [Some (ps ! i)]) = Inr (i', ca', out, tok')
            \<and> length ca' = i' \<and> i' \<le> 15"
      using Suc.hyps(2) Suc.prems i True by (intro Suc.hyps(1)) simp_all
    moreover have "red_scan b tok i ca = red_scan b tok (Suc i) (ca @ [Some (ps ! i)])"
      using rd True Suc.prems(2) by (subst red_scan.simps) (simp add: store_def)
    ultimately show ?thesis by simp
  next
    case False
    then show ?thesis
      using rd rd1 Suc.prems by (subst red_scan.simps) auto
  qed
qed

lemma execute_redirection_returns:
  assumes "tok = map Some ps @ None # extra" and "\<forall>k. answers w k \<noteq> 0"
  shows "\<exists>r w'. execute_redirection tok bg b w = Inr (Return r, w')"
proof -
  obtain i ca out tok' where sc: "red_scan b tok 0 [] = Inr (i, ca, out, tok')"
      "length ca = i" "i \<le> 15"
    using red_scan_total [OF assms(1), of 0 "[]" b] by auto
  have st: "store ''cmd_args'' MAXTOKENS ca i None = Inr (ca @ [None])"
    using sc(2,3) by (simp add: store_def)
  have nz: "answers w k < 0 \<or> 0 < answers w k" for k
    using assms(2) by (metis linorder_neqE_linordered_idom)
  show ?thesis
  proof (cases out)
    case None
    then show ?thesis
      using sc(1) st nz [of "tick w"]
      by (auto simp: execute_redirection_def sys_fork_def ask_def emit_def printf_def Let_def)
  next
    case (Some q)
    then show ?thesis
      using sc(1) st nz [of "Suc (tick w)"]
      by (auto simp: execute_redirection_def sys_open_def sys_fork_def ask_def emit_def
          printf_def Let_def)
  qed
qed

lemma process_normal_returns:
  assumes "\<forall>k. answers w k \<noteq> 0"
  shows "\<exists>r w'. process_normal tok bg b w = Inr (Return r, w')"
proof -
  have "answers w (tick w) < 0 \<or> 0 < answers w (tick w)"
    using assms by (metis linorder_neqE_linordered_idom)
  then show ?thesis
    by (auto simp: process_normal_def sys_fork_def ask_def emit_def printf_def)
qed

lemma take1_cut_background:
  "take (Suc 0) (fst (cut_background ts)) = take (Suc 0) ts"
  by (cases ts) simp_all

lemma process_one_cmd_returns:
  assumes "NUL \<in> set b" and "0 \<le> answers w (tick w)" and "\<forall>k. answers w k \<noteq> 0"
    and "take 1 (tokens '' '' (cstr b 0)) \<noteq> [''exit'']"
  shows "(\<exists>st' w'. process_one_cmd (b, l) w = Inr (Return 0, st', w'))
       \<or> process_one_cmd (b, l) w = Inl (Store_out_of_bounds ''commands'' MAXTOKENS)"
proof -
  let ?line = "cstr b 0"
  let ?w1 = "emit (Malloc (Suc (Suc (length (filter (\<lambda>c. c = CHR '' '') ?line))))
                          (answers w (tick w))) (w\<lparr>tick := Suc (tick w)\<rparr>)"
  let ?args = "fst (cut_background (tokens '' '' ?line))"
  let ?bg = "snd (cut_background (tokens '' '' ?line))"
  have a1: "\<forall>k. answers ?w1 k \<noteq> 0" using assms(3) by (simp add: emit_def)
  have ne: "take 1 ?args \<noteq> [''exit'']"
    using assms(4) by (simp add: take1_cut_background)
  obtain tok b' l' ps extra where tok: "tok = map Some ps @ None # extra"
    and len: "length b' = length b" and drp: "drop (length ?line) b' = drop (length ?line) b"
    and pc: "parse_cmd (b, l) w =
        (if ''|'' \<in> set ?args then
              (case pipe_split (b', l') of
                 Inl e \<Rightarrow> Inl e
               | Inr (commands, n, st2) \<Rightarrow> Inr (Pipeline commands n, st2, ?w1))
            else if ''>'' \<in> set ?args then Inr (Redirected tok ?bg, (b', l'), ?w1)
            else Inr (Plain tok ?bg, (b', l'), ?w1))"
    using parse_cmd_spec [OF assms(1,2), of l] ne by (auto simp: Let_def)
  show ?thesis
  proof (cases "''|'' \<in> set ?args")
    case True
    have b: "b = ?line @ NUL # drop (Suc (length ?line)) b"
      using assms(1) by (rule cstr_split)
    have "drop (length ?line) b = NUL # drop (Suc (length ?line)) b"
      using b by (metis append_eq_conv_conj)
    then have "drop (length ?line) b' = NUL # drop (Suc (length ?line)) b"
      using drp by simp
    then have z: "length ?line < length b'" "b' ! length ?line = NUL"
      using drop_eq_ConsD [of "length ?line" b' NUL] by simp_all
    show ?thesis
      using pipe_split_total [OF z, of l']
    proof
      assume "pipe_split (b', l') = Inl (Store_out_of_bounds ''commands'' MAXTOKENS)"
      then show ?thesis using pc True by (simp add: process_one_cmd_def)
    next
      assume "\<exists>commands n st'. pipe_split (b', l') = Inr (commands, n, st')
             \<and> wf_buf (length ?line) st'
             \<and> n \<le> length commands \<and> (\<forall>i<n. ptr_le (length ?line) (commands ! i))"
      then obtain commands n st2 where ps: "pipe_split (b', l') = Inr (commands, n, st2)"
        and wf: "wf_buf (length ?line) st2" "n \<le> length commands"
          "\<forall>i<n. ptr_le (length ?line) (commands ! i)"
        by blast
      obtain r st3 w3 where "execute_piped_commands commands n st2 ?w1 = Inr (Return r, st3, w3)"
        using execute_piped_commands_returns [OF wf a1] by blast
      then show ?thesis using pc True ps by (simp add: process_one_cmd_def)
    qed
  next
    case False
    show ?thesis
    proof (cases "''>'' \<in> set ?args")
      case True
      obtain r w2 where "execute_redirection tok ?bg b' ?w1 = Inr (Return r, w2)"
        using execute_redirection_returns [OF tok a1] by blast
      then show ?thesis using pc False True by (simp add: process_one_cmd_def)
    next
      case nr: False
      obtain r w2 where "process_normal tok ?bg b' ?w1 = Inr (Return r, w2)"
        using process_normal_returns [OF a1] by blast
      then show ?thesis using pc False nr by (simp add: process_one_cmd_def)
    qed
  qed
qed

lemma red_scan_full:
  assumes "tok = map Some ps @ Some q # rest" and "\<forall>p\<in>set ps. cstr b p \<noteq> ''>''"
    and "length ps = 15" and "i \<le> 15"
  shows "red_scan b tok i (map Some (take i ps)) = Inr (15, map Some ps, None, tok)"
  using assms(4)
proof (induction "15 - i" arbitrary: i)
  case 0
  then have i: "i = 15" by simp
  have "rd tok 15 = Inr (Some q)"
    using assms(1,3) by (simp add: rd_def nth_append)
  then show ?case
    using i assms(3) by (subst red_scan.simps) simp
next
  case (Suc n)
  then have i: "i < 15" by simp
  then have "rd tok i = Inr (Some (ps ! i))"
    using assms(1,3) by (simp add: rd_def nth_append)
  moreover have "cstr b (ps ! i) \<noteq> ''>''" using assms(2,3) i by simp
  moreover have "store ''cmd_args'' MAXTOKENS (map Some (take i ps)) i (Some (ps ! i))
                   = Inr (map Some (take (Suc i) ps))"
    using i assms(3) by (simp add: store_def take_Suc_conv_app_nth)
  moreover have "red_scan b tok (Suc i) (map Some (take (Suc i) ps)) =
           Inr (15, map Some ps, None, tok)"
    using Suc.hyps(2) i by (intro Suc.hyps(1)) simp_all
  ultimately show ?case
    using i by (subst red_scan.simps) simp
qed

lemma red_scan_last:
  assumes "tok = map Some ps @ Some q # None # rest" and "\<forall>p\<in>set ps. cstr b p \<noteq> ''>''"
    and "cstr b q = ''>''" and "length ps \<le> 15"
  shows "\<exists>tok'. red_scan b tok 0 [] = Inr (length ps, map Some ps, None, tok')"
proof (cases "length ps < 15")
  case True
  then show ?thesis using red_scan_found [OF assms(1,2,3)] by simp
next
  case False
  then have "length ps = 15" using assms(4) by simp
  then show ?thesis
    using red_scan_full [OF assms(1,2), of 0] by simp
qed






section \<open>The parser on pipelines\<close>

text \<open>
  Claim C1 says that a line with the token \<open>|\<close> becomes a pipeline with one stage per
  \<open>|\<close>-separated segment of the original line, so that \<open>cmd1 | cmd2 | cmd3\<close> has 3
  stages. The code splits the buffer at \<open>|\<close> only after the whitespace tokenizer has
  overwritten the blank behind the first token with NUL (line 252), so the second
  split ends there: the line \<open>cmd1 | cmd2 | cmd3\<close> is parsed as a pipeline of exactly
  one command, \<open>cmd1\<close>.
\<close>

theorem three_stage_line_parsed_as_one_stage:
  "map_sum id (\<lambda>(sh, st, w). (sh, cstr (fst st) 0))
     (parse_cmd (line_buf ''cmd1 | cmd2 | cmd3'', None) (boot (\<lambda>k. 1)))
   = Inr (Pipeline [Some 0, None] 1, ''cmd1'')"
  by code_simp

text \<open>
  Claim C10 says that every store into the 16-slot arrays \<open>commands\<close> and \<open>args\<close> has
  an index below 16, the sentinel store after the split loop included. The split loop
  of lines 285-290 runs while \<open>num_commands < MAXTOKENS\<close>, so after 16 command strings
  the sentinel of line 291 is stored at index 16: a first token with 16 segments makes
  the parser store beyond \<open>commands\<close>.
\<close>

theorem sixteen_segments_sentinel_store:
  "map_sum id fst
     (parse_cmd (line_buf ''a|a|a|a|a|a|a|a|a|a|a|a|a|a|a|a |'', None) (boot (\<lambda>k. 1)))
   = Inl (Store_out_of_bounds ''commands'' MAXTOKENS)"
  by code_simp

section \<open>The pipeline executor\<close>




text \<open>
  Claim C3 says that the child of a stage that is not the first has the previous
  pipe's read end on standard input, and that every descriptor the child does not need
  is closed before it execs. The child calls \<open>dup\<close> while descriptor 0 is still open
  (lines 149 and 153 are not preceded by a \<open>close\<close> of 0 or 1), so the copy takes the
  lowest unused descriptor instead; and the pipe of the last stage, created at line
  136 for every stage, is closed nowhere in the child. In a pipeline of two commands
  the second child execs with the console still on descriptor 0, the read end of the
  first pipe on descriptor 6 and both ends of the second pipe open.
\<close>

theorem last_stage_child_descriptors:
  "map_sum id (\<lambda>(oc, st, w). (oc, ofile w, trace w))
     (execute_piped_commands [Some 0, Some 3, None] 2 (''ls'' @ [NUL] @ ''wc'' @ [NUL], None)
        (boot (\<lambda>k. if k = 3 then 0 else 1)))
   = Inr (Replaced,
          [Some Console, Some Console, Some Console, None,
           Some (Pipe_read 1), Some (Pipe_write 1), Some (Pipe_read 0)],
          [Pipe (Some (3, 4)), Fork 1, Close 4, Pipe (Some (4, 5)), Fork 0,
           Dup 3 (Some 6), Close 3, Exec (Some ''wc'') [''wc''] 1])"
  by code_simp

section \<open>The terminating builtin\<close>

text \<open>
  Claim C5 says that on every line whose first token is \<open>exit\<close> the shell waits until
  no child is left before it terminates. Lines 245-249 come before the first token is
  read: when \<open>malloc\<close> fails on the line \<open>exit\<close>, the shell exits at once, without a
  \<open>wait\<close> and with its two children left.
\<close>

theorem exit_with_failed_malloc_counterexample:
  "tokens '' '' ''exit'' = [''exit'']
   \<and> map_sum id (\<lambda>(oc, st, w). (oc, trace w, children w))
       (process_one_cmd (line_buf ''exit'', None) ((boot (\<lambda>k. - 1))\<lparr>children := [4, 5]\<rparr>))
     = Inr (Exited, [Malloc 2 (- 1), Printf 1 ''malloc failed\<newline>'' [], Exit], [4, 5])"
  by code_simp

text \<open>
  Claim C5 as the code has it: when the first token of the line is \<open>exit\<close>, whatever
  follows it, and the token array could be allocated, the shell does nothing but wait:
  once for every child it has, then once more with the answer \<open>-1\<close>, and only then it
  exits; no child is left, and no pipe, file or process was created for the line.
\<close>

theorem exit_builtin_drains_children:
  assumes "NUL \<in> set b" and "0 \<le> answers w (tick w)"
    and "tokens '' '' (cstr b 0) = ''exit'' # rest"
  shows "\<exists>st' w'. process_one_cmd (b, l) w = Inr (Exited, st', w')
           \<and> trace w' = trace w
               @ Malloc (Suc (Suc (length (filter (\<lambda>c. c = CHR '' '') (cstr b 0))))) (answers w (tick w))
               # map (\<lambda>p. Wait (int p)) (children w) @ [Wait (- 1), Exit]
           \<and> children w' = []"
proof -
  obtain tok b' l' where "parse_cmd (b, l) w =
      Inr (Builtin_exit, (b', l'),
           emit (Malloc (Suc (Suc (length (filter (\<lambda>c. c = CHR '' '') (cstr b 0)))))
                          (answers w (tick w))) (w\<lparr>tick := Suc (tick w)\<rparr>))"
    using parse_cmd_spec [OF assms(1,2), of l] assms(3) by (auto simp: Let_def)
  then show ?thesis
    using wait_for_background_processes_spec
      [of "emit (Malloc (Suc (Suc (length (filter (\<lambda>c. c = CHR '' '') (cstr b 0)))))
                          (answers w (tick w))) (w\<lparr>tick := Suc (tick w)\<rparr>)"]
    by (simp add: process_one_cmd_def sys_exit_def emit_def)
qed

theorem exit_builtin_drains_children_witness:
  "\<exists>st' w'. process_one_cmd (line_buf ''exit now'', None) ((boot (\<lambda>k. 1))\<lparr>children := [4, 5]\<rparr>)
               = Inr (Exited, st', w')
           \<and> trace w' = [Malloc 3 1, Wait 4, Wait 5, Wait (- 1), Exit]
           \<and> children w' = []"
proof -
  have c: "cstr (line_buf ''exit now'') 0 = ''exit now''"
    by code_simp
  have h1: "NUL \<in> set (line_buf ''exit now'')"
    by (simp add: line_buf_def)
  have h2: "0 \<le> answers ((boot (\<lambda>k. 1))\<lparr>children := [4, 5]\<rparr>)
                   (tick ((boot (\<lambda>k. 1))\<lparr>children := [4, 5]\<rparr>))"
    by (simp add: boot_def)
  have h3: "tokens '' '' (cstr (line_buf ''exit now'') 0) = ''exit'' # [''now'']"
    unfolding c by code_simp
  show ?thesis
    using exit_builtin_drains_children [OF h1 h2 h3, of None] by (auto simp: c boot_def)
qed

section \<open>The redirection executor\<close>

text \<open>
  Claim C7: when the token behind the first \<open>>\<close> names a file that cannot be opened,
  \<open>execute_redirection\<close> reports the failure with that name and returns \<open>-1\<close>; the
  trace holds the failed \<open>open\<close> and the message and nothing else, so no process is
  forked and nothing is executed, and the children and the descriptors are as before.
\<close>

theorem open_failure_aborts_without_fork:
  assumes "tok = map Some ps @ Some q # Some t # rest" and "\<forall>p\<in>set ps. cstr b p \<noteq> ''>''"
    and "cstr b q = ''>''" and "length ps < 15" and "answers w (tick w) < 0"
  shows "\<exists>w'. execute_redirection tok bg b w = Inr (Return (- 1), w')
           \<and> trace w' = trace w @ [Open (cstr b t) [O_CREATE, O_WRONLY] None,
                                    Printf 2 ''Cannot open file %s\<newline>'' [PStr (Some (cstr b t))]]
           \<and> children w' = children w \<and> ofile w' = ofile w \<and> npipes w' = npipes w"
proof -
  have sc: "red_scan b tok 0 [] = Inr (length ps, map Some ps, Some t, tok[length ps := None])"
    using assms(1-4) by (rule red_scan_found)
  have st: "store ''cmd_args'' MAXTOKENS (map Some ps) (length ps) None = Inr (map Some ps @ [None])"
    using assms(4) by (simp add: store_def)
  show ?thesis
    using sc st assms(5)
    by (simp add: execute_redirection_def sys_open_def ask_def emit_def printf_def)
qed

theorem open_failure_aborts_without_fork_witness:
  "\<exists>w'. execute_redirection [Some 0, Some 3, Some 5, None] False
            (''ls'' @ NUL # ''>'' @ NUL # ''out'' @ [NUL]) (boot (\<lambda>k. - 1)) = Inr (Return (- 1), w')
         \<and> trace w' = [Open ''out'' [O_CREATE, O_WRONLY] None,
                        Printf 2 ''Cannot open file %s\<newline>'' [PStr (Some ''out'')]]
         \<and> children w' = []
         \<and> ofile w' = [Some Console, Some Console, Some Console]"
proof -
  let ?b = "''ls'' @ NUL # ''>'' @ NUL # ''out'' @ [NUL]"
  have h1: "[Some 0, Some 3, Some 5, None] = map Some [0] @ Some 3 # Some 5 # [None]"
    by simp
  have h2: "\<forall>p\<in>set [0]. cstr ?b p \<noteq> ''>''"
    by (simp add: cstr_def NUL_def)
  have h3: "cstr ?b 3 = ''>''"
    by (simp add: cstr_def NUL_def)
  have h4: "length [0::nat] < 15"
    by simp
  have h5: "answers (boot (\<lambda>k. - 1)) (tick (boot (\<lambda>k. - 1))) < 0"
    by (simp add: boot_def)
  have c: "cstr ?b 5 = ''out''"
    by (simp add: cstr_def NUL_def)
  show ?thesis
    using open_failure_aborts_without_fork [OF h1 h2 h3 h4 h5, of False]
    by (auto simp: cstr_def NUL_def boot_def)
qed

text \<open>
  Claim C8 says that the target is opened with the flags create, write-only and
  truncate. Line 196 passes \<open>O_CREATE | O_WRONLY\<close> and no truncation flag.
\<close>

theorem open_flags_counterexample:
  "map_sum id (\<lambda>(oc, st, w). filter is_open (trace w))
     (process_one_cmd (line_buf ''ls > out.txt'', None) (boot (\<lambda>k. 1)))
   = Inr [Open ''out.txt'' [O_CREATE, O_WRONLY] (Some 3)]
   \<and> set [O_CREATE, O_WRONLY] \<noteq> {O_CREATE, O_WRONLY, O_TRUNC}"
  by code_simp

text \<open>
  Claim C8 as the code has it: when the first \<open>>\<close> is among the first 15 tokens and a
  token follows it, that token is the target, the arguments are the tokens before
  \<open>>\<close> (and the caller's array is cut there), and the one file the executor opens is
  the target, with exactly the flags \<open>O_CREATE\<close> and \<open>O_WRONLY\<close>; the child execs the
  tokens before \<open>>\<close>.
\<close>

theorem redirection_target_and_flags:
  assumes "tok = map Some ps @ Some q # Some t # rest" and "\<forall>p\<in>set ps. cstr b p \<noteq> ''>''"
    and "cstr b q = ''>''" and "length ps < 15"
  shows "red_scan b tok 0 [] = Inr (length ps, map Some ps, Some t, tok[length ps := None])
       \<and> (\<exists>oc w'. execute_redirection tok bg b w = Inr (oc, w')
             \<and> filter is_open (trace w') = filter is_open (trace w) @
                 [Open (cstr b t) [O_CREATE, O_WRONLY]
                    (if answers w (tick w) < 0 then None else Some (fdalloc (ofile w)))])
       \<and> (0 \<le> answers w (tick w) \<and> answers w (Suc (tick w)) = 0
            \<and> 0 \<le> answers w (Suc (Suc (tick w))) \<longrightarrow>
            (\<exists>w' n. execute_redirection tok bg b w = Inr (Replaced, w')
               \<and> trace w' = trace w @
                   [Open (cstr b t) [O_CREATE, O_WRONLY] (Some (fdalloc (ofile w))),
                    Fork 0, Dup (fdalloc (ofile w)) (Some n), Close (fdalloc (ofile w)),
                    Exec (map_option (cstr b) (hd (map Some ps @ [None]))) (map (cstr b) ps)
                      (answers w (Suc (Suc (tick w))))]))"
proof -
  have sc: "red_scan b tok 0 [] = Inr (length ps, map Some ps, Some t, tok[length ps := None])"
    using assms(1-4) by (rule red_scan_found)
  have st: "store ''cmd_args'' MAXTOKENS (map Some ps) (length ps) None = Inr (map Some ps @ [None])"
    using assms(4) by (simp add: store_def)
  have rd0: "rd (map Some ps @ [None]) 0 = Inr (hd (map Some ps @ [None]))"
    by (cases ps) (simp_all add: rd_def)
  have dup: "filter is_open (trace (sys_dup fd v)) = filter is_open (trace v)" for fd v
    by (simp add: sys_dup_def emit_def Let_def split: option.splits)
  have "\<exists>oc w'. execute_redirection tok bg b w = Inr (oc, w')
             \<and> filter is_open (trace w') = filter is_open (trace w) @
                 [Open (cstr b t) [O_CREATE, O_WRONLY]
                    (if answers w (tick w) < 0 then None else Some (fdalloc (ofile w)))]"
    using sc st rd0
    by (simp add: execute_redirection_def sys_open_def sys_fork_def sys_exec_def sys_wait_def
        sys_close_def sys_dup_def sys_exit_def printf_def ask_def emit_def Let_def
        split: list.splits option.splits)
  moreover have "0 \<le> answers w (tick w) \<and> answers w (Suc (tick w)) = 0
            \<and> 0 \<le> answers w (Suc (Suc (tick w))) \<longrightarrow>
            (\<exists>w' n. execute_redirection tok bg b w = Inr (Replaced, w')
               \<and> trace w' = trace w @
                   [Open (cstr b t) [O_CREATE, O_WRONLY] (Some (fdalloc (ofile w))),
                    Fork 0, Dup (fdalloc (ofile w)) (Some n), Close (fdalloc (ofile w)),
                    Exec (map_option (cstr b) (hd (map Some ps @ [None]))) (map (cstr b) ps)
                      (answers w (Suc (Suc (tick w))))])"
    using sc st rd0 install_fdalloc [of "ofile w" "File_out (cstr b t)"]
    by (simp add: execute_redirection_def sys_open_def sys_fork_def sys_exec_def
        sys_close_def sys_dup_def ask_def emit_def Let_def argv_Some)
  ultimately show ?thesis using sc by simp
qed

theorem redirection_target_and_flags_witness:
  "red_scan (''ls'' @ NUL # ''>'' @ NUL # ''out'' @ [NUL]) [Some 0, Some 3, Some 5, None] 0 []
     = Inr (1, [Some 0], Some 5, [Some 0, None, Some 5, None])
   \<and> (\<exists>oc w'. execute_redirection [Some 0, Some 3, Some 5, None] False
                 (''ls'' @ NUL # ''>'' @ NUL # ''out'' @ [NUL])
                 (boot (\<lambda>k. if k = 1 then 0 else 1)) = Inr (oc, w')
          \<and> filter is_open (trace w') = [Open ''out'' [O_CREATE, O_WRONLY] (Some 3)])
   \<and> (\<exists>w' n. execute_redirection [Some 0, Some 3, Some 5, None] False
                 (''ls'' @ NUL # ''>'' @ NUL # ''out'' @ [NUL])
                 (boot (\<lambda>k. if k = 1 then 0 else 1)) = Inr (Replaced, w')
          \<and> trace w' = [Open ''out'' [O_CREATE, O_WRONLY] (Some 3), Fork 0, Dup 3 (Some n),
                         Close 3, Exec (Some ''ls'') [''ls''] 1])"
proof -
  let ?b = "''ls'' @ NUL # ''>'' @ NUL # ''out'' @ [NUL]"
  have h1: "[Some 0, Some 3, Some 5, None] = map Some [0] @ Some 3 # Some 5 # [None]"
    by simp
  have h2: "\<forall>p\<in>set [0]. cstr ?b p \<noteq> ''>''"
    by (simp add: cstr_def NUL_def)
  have h3: "cstr ?b 3 = ''>''"
    by (simp add: cstr_def NUL_def)
  have h4: "length [0::nat] < 15"
    by simp
  have c: "cstr ?b 5 = ''out''" "cstr ?b 0 = ''ls''"
    by (simp_all add: cstr_def NUL_def)
  show ?thesis
    using redirection_target_and_flags [OF h1 h2 h3 h4, of False "boot (\<lambda>k. if k = 1 then 0 else 1)"]
    by (auto simp: cstr_def NUL_def boot_def)
qed

text \<open>
  Claim C9 says that, whenever \<open>>\<close> is the last token, the tokens before it are
  executed as if no redirection had been written. The scan of line 184 copies at most
  \<open>MAXTOKENS - 1\<close> tokens: with 16 tokens before the final \<open>>\<close> the child execs the
  first 15 of them, where the same line without \<open>>\<close> execs all 16.
\<close>

theorem sixteen_arguments_before_redirect_counterexample:
  "map_sum id (\<lambda>(oc, st, w). trace w)
     (process_one_cmd (line_buf ''a a a a a a a a a a a a a a a a >'', None)
        (boot (\<lambda>k. if k = 1 then 0 else 1)))
   = Inr [Malloc 18 1, Fork 0, Exec (Some ''a'') (replicate 15 ''a'') 1]
   \<and> tokens '' '' ''a a a a a a a a a a a a a a a a >'' = replicate 16 ''a'' @ [''>'']
   \<and> map_sum id (\<lambda>(oc, st, w). trace w)
     (process_one_cmd (line_buf ''a a a a a a a a a a a a a a a a'', None)
        (boot (\<lambda>k. if k = 1 then 0 else 1)))
   = Inr [Malloc 17 1, Fork 0, Exec (Some ''a'') (replicate 16 ''a'') 1]"
  by code_simp

text \<open>
  Claim C9 as the code has it: when \<open>>\<close> is the last token and at most 15 tokens
  come before it, \<open>outfile\<close> stays \<open>NULL_PTR\<close> (it is the sentinel behind \<open>>\<close>, or is
  never assigned), and \<open>execute_redirection\<close> does exactly what \<open>process_normal\<close> does
  with the tokens before \<open>>\<close>: no file is opened, and the child execs these tokens
  with its descriptors unchanged.
\<close>

theorem missing_target_runs_plain:
  assumes "tok = map Some ps @ Some q # None # rest" and "\<forall>p\<in>set ps. cstr b p \<noteq> ''>''"
    and "cstr b q = ''>''" and "length ps \<le> 15"
  shows "(\<exists>tok'. red_scan b tok 0 [] = Inr (length ps, map Some ps, None, tok'))
       \<and> execute_redirection tok bg b w = process_normal (map Some ps @ [None]) bg b w
       \<and> (answers w (tick w) = 0 \<and> 0 \<le> answers w (Suc (tick w)) \<longrightarrow>
            (\<exists>w'. execute_redirection tok bg b w = Inr (Replaced, w')
               \<and> trace w' = trace w @ [Fork 0,
                    Exec (map_option (cstr b) (hd (map Some ps @ [None]))) (map (cstr b) ps)
                      (answers w (Suc (tick w)))]
               \<and> ofile w' = ofile w))"
proof -
  obtain tok' where sc: "red_scan b tok 0 [] = Inr (length ps, map Some ps, None, tok')"
    using red_scan_last [OF assms] by blast
  have st: "store ''cmd_args'' MAXTOKENS (map Some ps) (length ps) None = Inr (map Some ps @ [None])"
    using assms(4) by (simp add: store_def)
  have eq: "execute_redirection tok bg b w = process_normal (map Some ps @ [None]) bg b w"
    using sc st by (simp add: execute_redirection_def process_normal_def split: prod.splits)
  have rd0: "rd (map Some ps @ [None]) 0 = Inr (hd (map Some ps @ [None]))"
    by (cases ps) (simp_all add: rd_def)
  have "answers w (tick w) = 0 \<and> 0 \<le> answers w (Suc (tick w)) \<longrightarrow>
            (\<exists>w'. process_normal (map Some ps @ [None]) bg b w = Inr (Replaced, w')
               \<and> trace w' = trace w @ [Fork 0,
                    Exec (map_option (cstr b) (hd (map Some ps @ [None]))) (map (cstr b) ps)
                      (answers w (Suc (tick w)))]
               \<and> ofile w' = ofile w)"
    using rd0 by (simp add: process_normal_def sys_fork_def sys_exec_def ask_def emit_def argv_Some)
  then show ?thesis using sc eq by simp
qed

theorem missing_target_runs_plain_witness:
  "(\<exists>tok'. red_scan (''ls'' @ NUL # ''>'' @ [NUL]) [Some 0, Some 3, None] 0 []
     = Inr (1, [Some 0], None, tok'))
   \<and> execute_redirection [Some 0, Some 3, None] False (''ls'' @ NUL # ''>'' @ [NUL])
        (boot (\<lambda>k. if k = 0 then 0 else 1))
     = process_normal [Some 0, None] False (''ls'' @ NUL # ''>'' @ [NUL])
        (boot (\<lambda>k. if k = 0 then 0 else 1))
   \<and> (\<exists>w'. execute_redirection [Some 0, Some 3, None] False (''ls'' @ NUL # ''>'' @ [NUL])
              (boot (\<lambda>k. if k = 0 then 0 else 1)) = Inr (Replaced, w')
          \<and> trace w' = [Fork 0, Exec (Some ''ls'') [''ls''] 1]
          \<and> ofile w' = [Some Console, Some Console, Some Console])"
proof -
  let ?b = "''ls'' @ NUL # ''>'' @ [NUL]"
  have h1: "[Some 0, Some 3, None] = map Some [0] @ Some 3 # None # []"
    by simp
  have h2: "\<forall>p\<in>set [0]. cstr ?b p \<noteq> ''>''"
    by (simp add: cstr_def NUL_def)
  have h3: "cstr ?b 3 = ''>''"
    by (simp add: cstr_def NUL_def)
  have h4: "length [0::nat] \<le> 15"
    by simp
  let ?w = "boot (\<lambda>k. if k = 0 then 0 else 1)"
  note t = missing_target_runs_plain [OF h1 h2 h3 h4, of False ?w]
  have h5: "answers ?w (tick ?w) = 0 \<and> 0 \<le> answers ?w (Suc (tick ?w))"
    by (simp add: boot_def)
  have r1: "\<exists>tok'. red_scan ?b [Some 0, Some 3, None] 0 [] = Inr (1, [Some 0], None, tok')"
    using t by simp
  have r2: "execute_redirection [Some 0, Some 3, None] False ?b ?w
              = process_normal [Some 0, None] False ?b ?w"
    using t by simp
  have "\<exists>w'. execute_redirection [Some 0, Some 3, None] False ?b ?w = Inr (Replaced, w')
          \<and> trace w' = trace ?w @ [Fork 0,
               Exec (map_option (cstr ?b) (hd (map Some [0] @ [None]))) (map (cstr ?b) [0])
                 (answers ?w (Suc (tick ?w)))]
          \<and> ofile w' = ofile ?w"
    using t h5 by blast
  then have r3: "\<exists>w'. execute_redirection [Some 0, Some 3, None] False ?b ?w = Inr (Replaced, w')
          \<and> trace w' = [Fork 0, Exec (Some ''ls'') [''ls''] 1]
          \<and> ofile w' = [Some Console, Some Console, Some Console]"
    by (simp add: cstr_def NUL_def boot_def)
  show ?thesis
    using r1 r2 r3 by blast
qed

section \<open>The background marker\<close>

text \<open>
  Claim C6 says that a line whose last token is \<open>&\<close> is parsed with the flag set and
  the marker removed. The loop of lines 255-262 does not look at the first token and
  stops at the first \<open>&\<close> behind it: the line \<open>&\<close> keeps its token and has no flag, and
  of \<open>a & b &\<close> only \<open>a\<close> is kept.
\<close>

theorem background_marker_counterexample:
  "tokens '' '' ''&'' = [''&'']
   \<and> map_sum id (\<lambda>(r, w). map_option (\<lambda>(tok, bg, st). (argv (fst st) tok, bg)) r)
       (tokenize_line (line_buf ''&'', None) (boot (\<lambda>k. 1)))
     = Inr (Some ([''&''], False))
   \<and> tokens '' '' ''a & b &'' = [''a'', ''&'', ''b'', ''&'']
   \<and> map_sum id (\<lambda>(r, w). map_option (\<lambda>(tok, bg, st). (argv (fst st) tok, bg)) r)
       (tokenize_line (line_buf ''a & b &'', None) (boot (\<lambda>k. 1)))
     = Inr (Some ([''a''], True))"
  by code_simp

text \<open>
  Claim C6 as the code has it: when a token \<open>&\<close> follows the first token and the
  token array could be allocated, the tokenizer sets the flag and keeps the tokens
  before the first such \<open>&\<close> (all tokens but the marker when the only \<open>&\<close> is the last
  token). If the kept tokens do not
  start with \<open>exit\<close> and contain neither \<open>|\<close> nor \<open>>\<close>, the line is a plain
  background command, and when \<open>fork\<close> succeeds the shell prints the child's process
  id and returns without a \<open>wait\<close>; the child stays among its children.
\<close>

theorem background_marker_after_first_token:
  assumes "NUL \<in> set b" and "0 \<le> answers w (tick w)"
    and "tokens '' '' (cstr b 0) = t0 # pre @ ''&'' # post" and "''&'' \<notin> set pre"
  shows "(\<exists>tok st' w1. tokenize_line (b, l) w = Inr (Some (tok, True, st'), w1)
            \<and> argv (fst st') tok = t0 # pre)
       \<and> (t0 \<noteq> ''exit'' \<and> ''|'' \<notin> set (t0 # pre) \<and> ''>'' \<notin> set (t0 # pre)
            \<and> 0 < answers w (Suc (tick w)) \<longrightarrow>
            (\<exists>tok st' w1. parse_cmd (b, l) w = Inr (Plain tok True, st', w1)
               \<and> argv (fst st') tok = t0 # pre)
          \<and> (\<exists>st' w'. process_one_cmd (b, l) w = Inr (Return 0, st', w')
               \<and> trace w' = trace w @
                   [Malloc (Suc (Suc (length (filter (\<lambda>c. c = CHR '' '') (cstr b 0)))))
                      (answers w (tick w)),
                    Fork (answers w (Suc (tick w))),
                    Printf 1 ''[pid %d] runs as a background process\<newline>''
                      [PInt (answers w (Suc (tick w)))]]
               \<and> children w' = children w @ [nat (answers w (Suc (tick w)))]))"
proof -
  let ?w1 = "emit (Malloc (Suc (Suc (length (filter (\<lambda>c. c = CHR '' '') (cstr b 0)))))
                          (answers w (tick w))) (w\<lparr>tick := Suc (tick w)\<rparr>)"
  have cut: "cut_background (tokens '' '' (cstr b 0)) = (t0 # pre, True)"
    using assms(3,4) by (simp add: takeWhile_upto_first)
  obtain ps extra b' l' where
    tl: "tokenize_line (b, l) w = Inr (Some (map Some ps @ None # extra, True, (b', l')), ?w1)"
    and all: "list_all2 (holds b') ps (t0 # pre)"
    using tokenize_line_spec [OF cstr_split [OF assms(1)] assms(2), of l] cut by auto
  have first: "\<exists>tok st' w1. tokenize_line (b, l) w = Inr (Some (tok, True, st'), w1)
            \<and> argv (fst st') tok = t0 # pre"
    using tl argv_holds [OF all, of extra] by simp
  have second: "(\<exists>tok st' w1. parse_cmd (b, l) w = Inr (Plain tok True, st', w1)
               \<and> argv (fst st') tok = t0 # pre)
          \<and> (\<exists>st' w'. process_one_cmd (b, l) w = Inr (Return 0, st', w')
               \<and> trace w' = trace w @
                   [Malloc (Suc (Suc (length (filter (\<lambda>c. c = CHR '' '') (cstr b 0)))))
                      (answers w (tick w)),
                    Fork (answers w (Suc (tick w))),
                    Printf 1 ''[pid %d] runs as a background process\<newline>''
                      [PInt (answers w (Suc (tick w)))]]
               \<and> children w' = children w @ [nat (answers w (Suc (tick w)))])"
    if cond: "t0 \<noteq> ''exit''" "''|'' \<notin> set (t0 # pre)" "''>'' \<notin> set (t0 # pre)"
      "0 < answers w (Suc (tick w))"
  proof -
    obtain tok b2 l2 where av: "argv b2 tok = t0 # pre"
      and pc: "parse_cmd (b, l) w = Inr (Plain tok True, (b2, l2), ?w1)"
      using parse_cmd_spec [OF assms(1,2), of l] cut cond(1,2,3) by (auto simp: Let_def)
    have "process_normal tok True b2 ?w1 =
            Inr (Return 0,
                 printf 1 ''[pid %d] runs as a background process\<newline>''
                   [PInt (answers w (Suc (tick w)))]
                   (emit (Fork (answers w (Suc (tick w))))
                      (?w1\<lparr>tick := Suc (Suc (tick w)),
                            children := children w @ [nat (answers w (Suc (tick w)))]\<rparr>)))"
      using cond(4) by (simp add: process_normal_def sys_fork_def ask_def emit_def)
    then have "\<exists>st' w'. process_one_cmd (b, l) w = Inr (Return 0, st', w')
               \<and> trace w' = trace w @
                   [Malloc (Suc (Suc (length (filter (\<lambda>c. c = CHR '' '') (cstr b 0)))))
                      (answers w (tick w)),
                    Fork (answers w (Suc (tick w))),
                    Printf 1 ''[pid %d] runs as a background process\<newline>''
                      [PInt (answers w (Suc (tick w)))]]
               \<and> children w' = children w @ [nat (answers w (Suc (tick w)))]"
      using pc by (simp add: process_one_cmd_def printf_def emit_def)
    then show ?thesis using pc av by auto
  qed
  show ?thesis using first second by blast
qed

theorem background_marker_after_first_token_witness:
  "(\<exists>tok st' w1. tokenize_line (line_buf ''echo hi &'', None) (boot (\<lambda>k. 7))
                    = Inr (Some (tok, True, st'), w1)
        \<and> argv (fst st') tok = [''echo'', ''hi''])
   \<and> (\<exists>tok st' w1. parse_cmd (line_buf ''echo hi &'', None) (boot (\<lambda>k. 7))
                    = Inr (Plain tok True, st', w1)
        \<and> argv (fst st') tok = [''echo'', ''hi''])
   \<and> (\<exists>st' w'. process_one_cmd (line_buf ''echo hi &'', None) (boot (\<lambda>k. 7))
                    = Inr (Return 0, st', w')
        \<and> trace w' = [Malloc 4 7, Fork 7,
                       Printf 1 ''[pid %d] runs as a background process\<newline>'' [PInt 7]]
        \<and> children w' = [7])"
proof -
  let ?b = "line_buf ''echo hi &''"
  let ?w = "boot (\<lambda>k. 7)"
  have c: "cstr ?b 0 = ''echo hi &''"
    by code_simp
  have h1: "NUL \<in> set ?b"
    by (simp add: line_buf_def)
  have h2: "0 \<le> answers ?w (tick ?w)"
    by (simp add: boot_def)
  have h3: "tokens '' '' (cstr ?b 0) = ''echo'' # [''hi''] @ ''&'' # []"
    unfolding c by code_simp
  have h4: "''&'' \<notin> set [''hi'']"
    by simp
  have h5: "''echo'' \<noteq> ''exit'' \<and> ''|'' \<notin> set (''echo'' # [''hi''])
              \<and> ''>'' \<notin> set (''echo'' # [''hi'']) \<and> 0 < answers ?w (Suc (tick ?w))"
    by (simp add: boot_def)
  note t = background_marker_after_first_token [OF h1 h2 h3 h4, of None]
  have r1: "\<exists>tok st' w1. tokenize_line (?b, None) ?w = Inr (Some (tok, True, st'), w1)
        \<and> argv (fst st') tok = [''echo'', ''hi'']"
    using t by simp
  have r2: "\<exists>tok st' w1. parse_cmd (?b, None) ?w = Inr (Plain tok True, st', w1)
        \<and> argv (fst st') tok = [''echo'', ''hi'']"
    using t h5 by simp
  have "\<exists>st' w'. process_one_cmd (?b, None) ?w = Inr (Return 0, st', w')
               \<and> trace w' = trace ?w @
                   [Malloc (Suc (Suc (length (filter (\<lambda>c. c = CHR '' '') (cstr ?b 0)))))
                      (answers ?w (tick ?w)),
                    Fork (answers ?w (Suc (tick ?w))),
                    Printf 1 ''[pid %d] runs as a background process\<newline>''
                      [PInt (answers ?w (Suc (tick ?w)))]]
               \<and> children w' = children ?w @ [nat (answers ?w (Suc (tick ?w)))]"
    using t h5 by blast
  then have r3: "\<exists>st' w'. process_one_cmd (?b, None) ?w = Inr (Return 0, st', w')
        \<and> trace w' = [Malloc 4 7, Fork 7,
                       Printf 1 ''[pid %d] runs as a background process\<newline>'' [PInt 7]]
        \<and> children w' = [7]"
    by (simp add: c boot_def eval_nat_numeral)
  show ?thesis using r1 r2 r3 by blast
qed

section \<open>The read loop\<close>

text \<open>
  Claim C4 says that no failure while a line is processed, an allocation failure
  included, ends the read loop. Lines 246-249 call \<open>exit\<close> when \<open>malloc\<close> fails: the
  shell ends after the first line and never reads the second.
\<close>

theorem malloc_failure_counterexample:
  "map_sum id (\<lambda>(oc, w). (oc, trace w))
     (main (replicate MAXLINE NUL) [''ls\<newline>'', ''ls\<newline>''] (boot (\<lambda>k. - 1)))
   = Inr (Exited, [Printf 1 ''xvsh> '' [], Read_line 3, Malloc 2 (- 1),
                   Printf 1 ''malloc failed\<newline>'' [], Exit])"
  by code_simp

text \<open>
  Claim C4 as the code has it: when \<open>read\<close> delivers a line of at least two bytes
  whose first token is not \<open>exit\<close>, the token array can be allocated, and the process
  stays the shell (no \<open>fork\<close> answers 0; an \<open>exec\<close> that fails does so in a child),
  then, whatever \<open>pipe\<close>, \<open>fork\<close> and \<open>open\<close> answer, \<open>process_one_cmd\<close> returns and
  the loop prints the prompt and goes on with the rest of the input; or else the line
  is one that makes the parser store beyond \<open>commands\<close> (claim C10), which is
  undefined in C and about which nothing is said here.
\<close>

theorem failed_command_keeps_reading:
  assumes "n = min (length c) MAXLINE" and "2 \<le> n"
    and "b = (take n c @ drop n buf)[n - 1 := NUL]"
    and "0 \<le> answers w (tick w)" and "\<forall>k. answers w k \<noteq> 0"
    and "take 1 (tokens '' '' (cstr b 0)) \<noteq> [''exit'']"
  shows "(\<exists>st' w'. process_one_cmd (b, l) (emit (Read_line n) w) = Inr (Return 0, st', w')
            \<and> main_loop buf l (c # cs) w
                = main_loop (replicate MAXLINE NUL) (snd st') cs (printf 1 SH_PROMPT [] w'))
       \<or> (process_one_cmd (b, l) (emit (Read_line n) w)
              = Inl (Store_out_of_bounds ''commands'' MAXTOKENS)
            \<and> main_loop buf l (c # cs) w = Inl (Store_out_of_bounds ''commands'' MAXTOKENS))"
proof -
  let ?w0 = "emit (Read_line n) w"
  have "n - 1 < length (take n c @ drop n buf)"
    using assms(1,2) by simp
  then have nul: "NUL \<in> set b"
    unfolding assms(3) by (rule set_update_memI)
  have a0: "0 \<le> answers ?w0 (tick ?w0)" "\<forall>k. answers ?w0 k \<noteq> 0"
    using assms(4,5) by (simp_all add: emit_def)
  have step: "main_loop buf l (c # cs) w =
      (case process_one_cmd (b, l) ?w0 of
         Inl e \<Rightarrow> Inl e
       | Inr (Return r, st', w') \<Rightarrow>
           main_loop (replicate MAXLINE NUL) (snd st') cs (printf 1 SH_PROMPT [] w')
       | Inr (oc, st', w') \<Rightarrow> Inr (oc, w'))"
  proof -
    have "n \<noteq> 0" "n \<noteq> 1" using assms(2) by simp_all
    then show ?thesis
      unfolding assms(3) by (simp add: Let_def assms(1) [symmetric])
  qed
  show ?thesis
    using process_one_cmd_returns [OF nul a0 assms(6), of l] step by auto
qed

theorem failed_command_keeps_reading_witness:
  "\<exists>st' w'. process_one_cmd ((''ls\<newline>'' @ drop 3 (replicate MAXLINE NUL))[2 := NUL], None)
                (emit (Read_line 3) (boot (\<lambda>k. if k = 1 then - 1 else 1)))
              = Inr (Return 0, st', w')
          \<and> main_loop (replicate MAXLINE NUL) None [''ls\<newline>'', ''ls\<newline>'']
                (boot (\<lambda>k. if k = 1 then - 1 else 1))
              = main_loop (replicate MAXLINE NUL) (snd st') [''ls\<newline>'']
                  (printf 1 SH_PROMPT [] w')"
proof -
  let ?b = "(take 3 ''ls\<newline>'' @ drop 3 (replicate MAXLINE NUL))[3 - 1 := NUL]"
  let ?w = "boot (\<lambda>k. if k = 1 then - 1 else 1)"
  have h1: "3 = min (length ''ls\<newline>'') MAXLINE"
    by simp
  have h2: "(2::nat) \<le> 3"
    by simp
  have h3: "?b = (take 3 ''ls\<newline>'' @ drop 3 (replicate MAXLINE NUL))[3 - 1 := NUL]"
    by simp
  have h4: "0 \<le> answers ?w (tick ?w)"
    by (simp add: boot_def)
  have h5: "\<forall>k. answers ?w k \<noteq> 0"
    by (simp add: boot_def)
  have c: "cstr ?b 0 = ''ls''"
    by code_simp
  have h6: "take 1 (tokens '' '' (cstr ?b 0)) \<noteq> [''exit'']"
    unfolding c by code_simp
  have no: "map_sum id fst (process_one_cmd (?b, None) (emit (Read_line 3) ?w)) = Inr (Return 0)"
    by code_simp
  then have "process_one_cmd (?b, None) (emit (Read_line 3) ?w)
               \<noteq> Inl (Store_out_of_bounds ''commands'' MAXTOKENS)"
    by auto
  then show ?thesis
    using failed_command_keeps_reading [OF h1 h2 h3 h4 h5 h6, of None "[''ls\<newline>'']"]
    by simp
qed

end
